theory Spec2Isabelle
  imports Complex_Main
begin

section \<open>JavaScript values used by the coordinate helpers\<close>

text \<open>
  The helpers of \<^verbatim>\<open>src/helper/Board.ts\<close> compute with JavaScript numbers and strings.
  A number is modelled as an integer or \<^verbatim>\<open>NaN\<close>: square indices are integers, and
  \<^verbatim>\<open>NaN\<close> is what \<^verbatim>\<open>parseInt\<close> returns on a character that is not a digit.
  Strings are \<^typ>\<open>string\<close>; \<^verbatim>\<open>s[i]\<close> is \<^verbatim>\<open>undefined\<close> (here \<^term>\<open>None\<close>) past the end.

  A JavaScript number is a double. The model computes with exact integers, which is
  what the code does as long as the arguments and every intermediate value are safe
  integers (\<^verbatim>\<open>Number.isSafeInteger\<close>: of magnitude at most \<open>2^53 - 1\<close>): there sums,
  differences and products of doubles are exact, \<^verbatim>\<open>Math.floor(i / r)\<close> is the integer
  quotient, and \<^verbatim>\<open>toString\<close> prints the decimal digits. Larger numbers (which the code
  rounds, and prints with an exponent from \<open>10^21\<close> on), fractions and infinities are
  outside the model: every statement about numbers below is made for safe integers.
\<close>

datatype jsnum = NaN | Num int


definition char_at :: "string \<Rightarrow> nat \<Rightarrow> char option" where
  "char_at s i = (if i < length s then Some (s ! i) else None)"

definition digit_char :: "nat \<Rightarrow> char" where
  "digit_char d = ''0123456789'' ! d"

fun show_nat :: "nat \<Rightarrow> string" where
  "show_nat n =
     (if n < 10 then [digit_char n] else show_nat (n div 10) @ [digit_char (n mod 10)])"

declare show_nat.simps [simp del]

definition show_int :: "int \<Rightarrow> string" where
  "show_int i = (if i < 0 then CHR ''-'' # show_nat (nat (- i)) else show_nat (nat i))"

text \<open>\<^verbatim>\<open>Number.prototype.toString()\<close> on \<^verbatim>\<open>NaN\<close> and on safe integers: the decimal digits, with
  a minus sign before those of a negative number.\<close>

fun js_toString :: "jsnum \<Rightarrow> string" where
  "js_toString NaN = ''NaN''"
| "js_toString (Num i) = show_int i"

definition digit_of :: "char \<Rightarrow> int option" where
  "digit_of = map_of
     [(CHR ''0'', 0), (CHR ''1'', 1), (CHR ''2'', 2), (CHR ''3'', 3), (CHR ''4'', 4),
      (CHR ''5'', 5), (CHR ''6'', 6), (CHR ''7'', 7), (CHR ''8'', 8), (CHR ''9'', 9)]"

text \<open>
  \<^verbatim>\<open>parseInt(key[1])\<close>: the argument is one character or \<^verbatim>\<open>undefined\<close>. A digit parses
  to its value; everything else (a sign, a blank, a letter, \<^verbatim>\<open>undefined\<close>) gives \<^verbatim>\<open>NaN\<close>.
\<close>

fun parseInt_char :: "char option \<Rightarrow> jsnum" where
  "parseInt_char None = NaN"
| "parseInt_char (Some c) = (case digit_of c of None \<Rightarrow> NaN | Some d \<Rightarrow> Num d)"

fun js_sub :: "jsnum \<Rightarrow> int \<Rightarrow> jsnum" where
  "js_sub NaN k = NaN"
| "js_sub (Num a) k = Num (a - k)"

fun js_mul_add :: "jsnum \<Rightarrow> int \<Rightarrow> int \<Rightarrow> jsnum" where
  "js_mul_add NaN r x = NaN"
| "js_mul_add (Num y) r x = Num (y * r + x)"

text \<open>
  A JavaScript \<^verbatim>\<open>Map\<close> is an association list in insertion order; \<^verbatim>\<open>Map.set\<close>
  replaces the value of a key that is present and appends a new key.
\<close>

fun map_set :: "'k \<Rightarrow> 'v \<Rightarrow> ('k \<times> 'v) list \<Rightarrow> ('k \<times> 'v) list" where
  "map_set k v [] = [(k, v)]"
| "map_set k v ((k', v') # m) = (if k = k' then (k, v) # m else (k', v') # map_set k v m)"

section \<open>CoordinateMapper: \<^verbatim>\<open>squareIndexToKey\<close> and \<^verbatim>\<open>keyToSquareIndex\<close>\<close>

text \<open>
  \<^verbatim>\<open>NUM_ROWS\<close> is a constant of the rules engine (package \<^verbatim>\<open>nichess\<close>), which is not part
  of the repository: it is the first argument of every function that reads it. It is a
  board dimension, a positive integer. For a safe integer \<open>i\<close> and a positive \<open>r\<close> with
  \<open>\<bar>i\<bar> + r\<close> safe, \<^verbatim>\<open>Math.floor(i / r)\<close> is \<^term>\<open>i div r\<close> (the quotient is rounded to a
  double before the floor is taken, and the rounding does not reach the next integer),
  and the product, the difference and the sums of \<^verbatim>\<open>squareIndexToCoordinates\<close> are exact.
  In \<^verbatim>\<open>keyToSquareIndex\<close> the row is between \<open>-1\<close> and \<open>8\<close>, so its result is exact when
  \<open>8 * r + 7\<close> is safe.
\<close>

fun squareIndexToCoordinates :: "int \<Rightarrow> jsnum \<Rightarrow> jsnum \<times> jsnum" where
  "squareIndexToCoordinates NUM_ROWS NaN = (NaN, NaN)"
| "squareIndexToCoordinates NUM_ROWS (Num squareIndex) =
     (let x = squareIndex - (squareIndex div NUM_ROWS) * NUM_ROWS;
          y = squareIndex div NUM_ROWS
      in (Num (x + 1), Num (y + 1)))"

text \<open>The \<^verbatim>\<open>switch (x)\<close> of \<^verbatim>\<open>squareIndexToKey\<close>: no case matches leaves \<^verbatim>\<open>file = ''\<close>.\<close>

fun file_of_x :: "jsnum \<Rightarrow> string" where
  "file_of_x NaN = ''''"
| "file_of_x (Num x) =
     (if x = 1 then ''a'' else if x = 2 then ''b'' else if x = 3 then ''c''
      else if x = 4 then ''d'' else if x = 5 then ''e'' else if x = 6 then ''f''
      else if x = 7 then ''g'' else if x = 8 then ''h'' else '''')"

definition squareIndexToKey :: "int \<Rightarrow> jsnum \<Rightarrow> string" where
  "squareIndexToKey NUM_ROWS squareIndex =
     (let xy = squareIndexToCoordinates NUM_ROWS squareIndex;
          x = fst xy;
          y = snd xy
      in file_of_x x @ js_toString y)"

text \<open>The \<^verbatim>\<open>switch (firstChar)\<close> of \<^verbatim>\<open>keyToSquareIndex\<close>: \<^verbatim>\<open>x\<close> stays \<^verbatim>\<open>0\<close> when no case matches.\<close>

definition x_of_firstChar :: "char option \<Rightarrow> int" where
  "x_of_firstChar firstChar =
     (if firstChar = Some CHR ''a'' then 0 else if firstChar = Some CHR ''b'' then 1
      else if firstChar = Some CHR ''c'' then 2 else if firstChar = Some CHR ''d'' then 3
      else if firstChar = Some CHR ''e'' then 4 else if firstChar = Some CHR ''f'' then 5
      else if firstChar = Some CHR ''g'' then 6 else if firstChar = Some CHR ''h'' then 7
      else 0)"

definition keyToSquareIndex :: "int \<Rightarrow> string \<Rightarrow> jsnum" where
  "keyToSquareIndex NUM_ROWS key =
     (let firstChar = char_at key 0;
          x = x_of_firstChar firstChar;
          y = js_sub (parseInt_char (char_at key 1)) 1
      in js_mul_add y NUM_ROWS x)"

text \<open>
  The key format of the specification, for stating the round trip on keys: the file
  letter of the column, in ascending order, followed by the rank, counted from one.
\<close>

definition specKey :: "nat \<Rightarrow> nat \<Rightarrow> string" where
  "specKey col row = (''abcdefghijklmnopqrstuvwxyz'' ! col) # show_nat (row + 1)"

section \<open>Configuration trees\<close>

text \<open>
  A configuration is a tree of JavaScript objects. \<^verbatim>\<open>deepCopy\<close>, \<^verbatim>\<open>deepMergeConfig\<close>
  and \<^verbatim>\<open>setConfig\<close> create objects and assign to properties, and what they share with
  their arguments matters, so objects live in a store: a value is a primitive or a
  reference \<open>Ref a\<close>, and the store maps the address \<open>a\<close> to a plain object (its own
  enumerable properties, in order), an array, a \<^verbatim>\<open>Map\<close> or a function. The store is a
  list of cells; a new object takes the next free address, the length of the list.

  \<^item> \<^verbatim>\<open>===\<close> on values is equality of values: primitives by value, objects by
    address (no configuration number is \<^verbatim>\<open>NaN\<close>).
  \<^item> A \<^verbatim>\<open>Map\<close> (\<^verbatim>\<open>movable.dests\<close>) keeps its entries in internal slots: it has no own
    enumerable property, so \<^verbatim>\<open>Object.entries\<close>, spreading and \<^verbatim>\<open>for ... in\<close> see nothing
    in it.
  \<^item> A function is kept by what it does when the board calls it as
    \<^verbatim>\<open>movable.events.after\<close>: the empty function of the default configuration, a function
    of the caller, the bound \<^verbatim>\<open>changeTurn\<close>, or the wrapper of \<^verbatim>\<open>setConfig\<close> around another
    function.
  \<^item> Property names are the names of configuration fields: none is an array index or a
    member that every object inherits (\<^verbatim>\<open>toString\<close>, \<^verbatim>\<open>constructor\<close>), and spreading an
    array or a string is not modelled.
\<close>

type_synonym addr = nat

datatype hook = EmptyFn | UserFn nat | BoundChangeTurn | Patched hook | NotCallable

datatype val = Undefined | Null | Boolean bool | Number rat | Str string | Ref addr

datatype cell =
    Plain "(string \<times> val) list"
  | Array "val list"
  | MapObj "(string \<times> string list) list"
  | Function hook

type_synonym heap = "cell list"

definition cell_at :: "heap \<Rightarrow> addr \<Rightarrow> cell option" where
  "cell_at h a = (if a < length h then Some (h ! a) else None)"

text \<open>
  \<^verbatim>\<open>isObject(value)\<close>: truthy, an \<^verbatim>\<open>Object\<close>, not an \<^verbatim>\<open>Array\<close>, not a \<^verbatim>\<open>Function\<close>. A
  \<^verbatim>\<open>Map\<close> passes all four tests.
\<close>

fun isObject :: "heap \<Rightarrow> val \<Rightarrow> bool" where
  "isObject h (Ref a) =
     (case cell_at h a of
        Some (Plain ps) \<Rightarrow> True
      | Some (MapObj m) \<Rightarrow> True
      | _ \<Rightarrow> False)"
| "isObject h v = False"

text \<open>The own enumerable properties of a value, as \<^verbatim>\<open>Object.entries\<close>, \<^verbatim>\<open>{...value}\<close> and
  \<^verbatim>\<open>for (key in value)\<close> see them.\<close>

fun entries :: "heap \<Rightarrow> val \<Rightarrow> (string \<times> val) list" where
  "entries h (Ref a) = (case cell_at h a of Some (Plain ps) \<Rightarrow> ps | _ \<Rightarrow> [])"
| "entries h v = []"

text \<open>\<^verbatim>\<open>value?.[key]\<close>: \<^verbatim>\<open>undefined\<close> when there is no such property.\<close>

definition get :: "heap \<Rightarrow> val \<Rightarrow> string \<Rightarrow> val" where
  "get h v key = (case map_of (entries h v) key of Some x \<Rightarrow> x | None \<Rightarrow> Undefined)"

text \<open>\<^verbatim>\<open>object[key] = v\<close> on the plain object at address \<open>a\<close>.\<close>

definition set_prop :: "heap \<Rightarrow> addr \<Rightarrow> string \<Rightarrow> val \<Rightarrow> heap" where
  "set_prop h a key v = h[a := Plain (map_set key v (entries h (Ref a)))]"

fun truthy :: "val \<Rightarrow> bool" where
  "truthy Undefined = False"
| "truthy Null = False"
| "truthy (Boolean b) = b"
| "truthy (Number n) = (n \<noteq> 0)"
| "truthy (Str s) = (s \<noteq> [])"
| "truthy (Ref a) = True"

subsection \<open>\<^verbatim>\<open>deepCopy\<close>, \<^verbatim>\<open>deepMergeConfig\<close>, \<^verbatim>\<open>deepDiffConfig\<close> (\<^verbatim>\<open>src/helper/Board.ts\<close>)\<close>

text \<open>
  The three functions recurse through the tree and do not return on a cyclic one.
  Their first argument bounds the depth of the recursion; the result is \<^term>\<open>None\<close>
  when the bound is reached and otherwise the returned value with the store after the
  call.

  \<^verbatim>\<open>deepCopy\<close> maps over \<^verbatim>\<open>Object.entries(value)\<close> from left to right and then builds the
  new object with \<^verbatim>\<open>Object.fromEntries\<close>.
\<close>

fun copyEntries ::
  "(val \<Rightarrow> heap \<Rightarrow> (val \<times> heap) option) \<Rightarrow> (string \<times> val) list \<Rightarrow> heap
     \<Rightarrow> ((string \<times> val) list \<times> heap) option"
where
  "copyEntries f [] h = Some ([], h)"
| "copyEntries f ((key, x) # es) h =
     (case f x h of
        None \<Rightarrow> None
      | Some (x', h1) \<Rightarrow>
          (case copyEntries f es h1 of
             None \<Rightarrow> None
           | Some (es', h2) \<Rightarrow> Some ((key, x') # es', h2)))"

primrec deepCopy :: "nat \<Rightarrow> val \<Rightarrow> heap \<Rightarrow> (val \<times> heap) option" where
  "deepCopy 0 = (\<lambda>v h. if isObject h v then None else Some (v, h))"
| "deepCopy (Suc n) = (\<lambda>v h.
     if isObject h v
     then (case copyEntries (deepCopy n) (entries h v) h of
             None \<Rightarrow> None
           | Some (es, h') \<Rightarrow> Some (Ref (length h'), h' @ [Plain es]))
     else Some (v, h))"

text \<open>
  \<^verbatim>\<open>{ ...target, ...source }\<close>: the properties of \<^verbatim>\<open>target\<close> in order, then those of
  \<^verbatim>\<open>source\<close>; a name that is present keeps its place and takes the new value.
\<close>

definition spread :: "heap \<Rightarrow> val \<Rightarrow> (string \<times> val) list \<Rightarrow> (string \<times> val) list" where
  "spread h v props = foldl (\<lambda>acc (k, x). map_set k x acc) props (entries h v)"

text \<open>The loop \<^verbatim>\<open>for (const key in result)\<close> of \<^verbatim>\<open>deepMergeConfig\<close>; \<open>result\<close> is the address of
  the new object.\<close>

fun mergeKeys ::
  "(val \<Rightarrow> val \<Rightarrow> heap \<Rightarrow> (val \<times> heap) option) \<Rightarrow> (val \<Rightarrow> heap \<Rightarrow> (val \<times> heap) option)
     \<Rightarrow> val \<Rightarrow> val \<Rightarrow> addr \<Rightarrow> string list \<Rightarrow> heap \<Rightarrow> heap option"
where
  "mergeKeys mrg cpy target source result [] h = Some h"
| "mergeKeys mrg cpy target source result (key # keys) h =
     (case (if isObject h (get h target key) \<and> isObject h (get h source key)
            then mrg (get h target key) (get h source key) h
            else cpy (get h (Ref result) key) h) of
        None \<Rightarrow> None
      | Some (v, h1) \<Rightarrow> mergeKeys mrg cpy target source result keys (set_prop h1 result key v))"

primrec deepMergeConfig :: "nat \<Rightarrow> val \<Rightarrow> val \<Rightarrow> heap \<Rightarrow> (val \<times> heap) option" where
  "deepMergeConfig 0 = (\<lambda>target source h. None)"
| "deepMergeConfig (Suc n) = (\<lambda>target source h.
     let props = spread h source (spread h target []);
         result = length h;
         h0 = h @ [Plain props]
     in case mergeKeys (deepMergeConfig n) (deepCopy n) target source result (map fst props) h0 of
          None \<Rightarrow> None
        | Some h' \<Rightarrow> Some (Ref result, h'))"

text \<open>The loop \<^verbatim>\<open>for (const key in newConfig)\<close> of \<^verbatim>\<open>deepDiffConfig\<close>; \<open>diff\<close> is the address of
  the new object.\<close>

fun diffKeys ::
  "(val \<Rightarrow> val \<Rightarrow> heap \<Rightarrow> (val \<times> heap) option) \<Rightarrow> val \<Rightarrow> val \<Rightarrow> addr \<Rightarrow> string list \<Rightarrow> heap
     \<Rightarrow> heap option"
where
  "diffKeys dif oldConfig newConfig diff [] h = Some h"
| "diffKeys dif oldConfig newConfig diff (key # keys) h =
     (if isObject h (get h oldConfig key) \<and> isObject h (get h newConfig key)
      then (case dif (get h oldConfig key) (get h newConfig key) h of
              None \<Rightarrow> None
            | Some (subDiff, h1) \<Rightarrow>
                diffKeys dif oldConfig newConfig diff keys
                  (if entries h1 subDiff \<noteq> [] then set_prop h1 diff key subDiff else h1))
      else if get h oldConfig key \<noteq> get h newConfig key
      then diffKeys dif oldConfig newConfig diff keys (set_prop h diff key (get h newConfig key))
      else diffKeys dif oldConfig newConfig diff keys h)"

primrec deepDiffConfig :: "nat \<Rightarrow> val \<Rightarrow> val \<Rightarrow> heap \<Rightarrow> (val \<times> heap) option" where
  "deepDiffConfig 0 = (\<lambda>oldConfig newConfig h. None)"
| "deepDiffConfig (Suc n) = (\<lambda>oldConfig newConfig h.
     let diff = length h;
         h0 = h @ [Plain []]
     in case diffKeys (deepDiffConfig n) oldConfig newConfig diff
               (map fst (entries h newConfig)) h0 of
          None \<Rightarrow> None
        | Some h' \<Rightarrow> Some (Ref diff, h'))"

subsection \<open>Object literals and \<^verbatim>\<open>defaultBoardConfig\<close> (\<^verbatim>\<open>src/helper/DefaultConfig.ts\<close>)\<close>

text \<open>
  An object literal of the source is a term of \<open>lit\<close>; evaluating it creates its
  objects in the store, the properties from left to right.
\<close>

datatype lit =
    LUndefined | LBool bool | LNum rat | LStr string | LFun hook
  | LMap "(string \<times> string list) list"
  | LArr "lit list"
  | LObj "(string \<times> lit) list"

fun evalLit :: "lit \<Rightarrow> heap \<Rightarrow> val \<times> heap"
and evalProps :: "(string \<times> lit) list \<Rightarrow> (string \<times> val) list \<Rightarrow> heap \<Rightarrow> (string \<times> val) list \<times> heap"
and evalItems :: "lit list \<Rightarrow> heap \<Rightarrow> val list \<times> heap"
where
  "evalLit LUndefined h = (Undefined, h)"
| "evalLit (LBool b) h = (Boolean b, h)"
| "evalLit (LNum n) h = (Number n, h)"
| "evalLit (LStr s) h = (Str s, h)"
| "evalLit (LFun f) h = (Ref (length h), h @ [Function f])"
| "evalLit (LMap m) h = (Ref (length h), h @ [MapObj m])"
| "evalLit (LArr xs) h = (case evalItems xs h of (vs, h') \<Rightarrow> (Ref (length h'), h' @ [Array vs]))"
| "evalLit (LObj ps) h = (case evalProps ps [] h of (qs, h') \<Rightarrow> (Ref (length h'), h' @ [Plain qs]))"
| "evalProps [] acc h = (acc, h)"
| "evalProps ((k, l) # ps) acc h =
     (case evalLit l h of (v, h1) \<Rightarrow> evalProps ps (map_set k v acc) h1)"
| "evalItems [] h = ([], h)"
| "evalItems (l # ls) h =
     (case evalLit l h of (v, h1) \<Rightarrow> (case evalItems ls h1 of (vs, h2) \<Rightarrow> (v # vs, h2)))"

definition possibleMovesWhite :: "(string \<times> string list) list" where
  "possibleMovesWhite =
     [(''b1'', [''a3'', ''c3'']), (''g1'', [''f3'', ''h3'']),
      (''a2'', [''a3'', ''a4'']), (''b2'', [''b3'', ''b4'']),
      (''c2'', [''c3'', ''c4'']), (''d2'', [''d3'', ''d4'']),
      (''e2'', [''e3'', ''e4'']), (''f2'', [''f3'', ''f4'']),
      (''g2'', [''g3'', ''g4'']), (''h2'', [''h3'', ''h4''])]"

definition initialPos :: string where
  "initialPos = ''0|0-warrior-60,0-knight-60,0-assassin-10,0-mage-10,0-king-10,0-assassin-10,0-knight-60,0-warrior-60,0-pawn-30,0-pawn-30,0-pawn-30,0-pawn-30,0-pawn-30,0-pawn-30,0-pawn-30,0-pawn-30,empty,empty,empty,empty,empty,empty,empty,empty,empty,empty,empty,empty,empty,empty,empty,empty,empty,empty,empty,empty,empty,empty,empty,empty,empty,empty,empty,empty,empty,empty,empty,empty,1-pawn-30,1-pawn-30,1-pawn-30,1-pawn-30,1-pawn-30,1-pawn-30,1-pawn-30,1-pawn-30,1-warrior-60,1-knight-60,1-assassin-10,1-mage-10,1-king-10,1-assassin-10,1-knight-60,1-warrior-60,''"

definition brush :: "string \<Rightarrow> string \<Rightarrow> rat \<Rightarrow> rat \<Rightarrow> lit" where
  "brush k c opacity lineWidth =
     LObj [(''key'', LStr k), (''color'', LStr c), (''opacity'', LNum opacity),
           (''lineWidth'', LNum lineWidth)]"

definition defaultBoardConfigLit :: lit where
  "defaultBoardConfigLit = LObj
     [(''fen'', LStr initialPos),
      (''orientation'', LStr ''white''),
      (''turnColor'', LStr ''white''),
      (''coordinates'', LBool False),
      (''autoCastle'', LBool True),
      (''viewOnly'', LBool False),
      (''disableContextMenu'', LBool False),
      (''addPieceZIndex'', LBool False),
      (''blockTouchScroll'', LBool False),
      (''highlight'', LObj [(''lastMove'', LBool True), (''check'', LBool True)]),
      (''animation'', LObj [(''enabled'', LBool True), (''duration'', LNum 300)]),
      (''lastMove'', LUndefined),
      (''movable'', LObj
         [(''free'', LBool False),
          (''color'', LStr ''white''),
          (''showDests'', LBool True),
          (''dests'', LMap possibleMovesWhite),
          (''events'', LObj [(''after'', LFun EmptyFn), (''afterNewPiece'', LUndefined)]),
          (''rookCastle'', LBool True)]),
      (''premovable'', LObj
         [(''enabled'', LBool True),
          (''showDests'', LBool True),
          (''castle'', LBool True),
          (''events'', LObj [(''set'', LUndefined), (''unset'', LUndefined)])]),
      (''predroppable'', LObj
         [(''enabled'', LBool False),
          (''events'', LObj [(''set'', LUndefined), (''unset'', LUndefined)])]),
      (''draggable'', LObj
         [(''enabled'', LBool True),
          (''distance'', LNum 3),
          (''autoDistance'', LBool True),
          (''showGhost'', LBool True),
          (''deleteOnDropOff'', LBool False)]),
      (''selectable'', LObj [(''enabled'', LBool True)]),
      (''events'', LObj
         [(''change'', LUndefined),
          (''move'', LUndefined),
          (''dropNewPiece'', LUndefined),
          (''select'', LUndefined),
          (''insert'', LUndefined)]),
      (''drawable'', LObj
         [(''enabled'', LBool True),
          (''visible'', LBool True),
          (''defaultSnapToValidMove'', LBool True),
          (''eraseOnClick'', LBool True),
          (''shapes'', LArr []),
          (''autoShapes'', LArr []),
          (''brushes'', LObj
             [(''green'', brush ''g'' ''#15781B'' 1 10),
              (''red'', brush ''r'' ''#882020'' 1 10),
              (''blue'', brush ''b'' ''#003088'' 1 10),
              (''yellow'', brush ''y'' ''#e68f00'' 1 10),
              (''paleBlue'', brush ''pb'' ''#003088'' (4 / 10) 15),
              (''paleGreen'', brush ''pg'' ''#15781B'' (4 / 10) 15),
              (''paleRed'', brush ''pr'' ''#882020'' (4 / 10) 15),
              (''paleGrey'', brush ''pgr'' ''#4a4a4a'' (35 / 100) 15)])])]"

text \<open>
  The store once the module \<^verbatim>\<open>DefaultConfig.ts\<close> has been loaded, and the value of the
  constant \<^verbatim>\<open>defaultBoardConfig\<close> in it.
\<close>

definition moduleHeap :: heap where
  "moduleHeap = snd (evalLit defaultBoardConfigLit [])"

definition defaultBoardConfig :: val where
  "defaultBoardConfig = fst (evalLit defaultBoardConfigLit [])"

section \<open>The collaborators of \<^verbatim>\<open>BoardApi\<close>\<close>

text \<open>
  The rules engine (package \<^verbatim>\<open>nichess\<close>) and the visual board (package
  \<^verbatim>\<open>nichessground\<close>) are not part of the repository. \<^verbatim>\<open>BoardApi\<close> is modelled for every
  engine and every board: their constants and methods are the fields of two records of
  functions, over an engine state \<^typ>\<open>'g\<close> and a board state \<^typ>\<open>'w\<close>. The engine's
  queries (\<^verbatim>\<open>legalActionsBySquare\<close>, \<^verbatim>\<open>isGameOver\<close>, \<^verbatim>\<open>draw\<close>, \<^verbatim>\<open>currentPlayer\<close>,
  \<^verbatim>\<open>allPiecesByPlayer\<close>, \<^verbatim>\<open>boardToString\<close>, \<^verbatim>\<open>moveNumber\<close>) read the engine state and leave
  it as it is.
\<close>

datatype PieceType =
    P1_KING | P1_MAGE | P1_WARRIOR | P1_ASSASSIN | P1_KNIGHT | P1_PAWN
  | P2_KING | P2_MAGE | P2_WARRIOR | P2_ASSASSIN | P2_KNIGHT | P2_PAWN
  | NO_PIECE

record PlayerAction =
  srcIdx :: int
  dstIdx :: int

record Piece =
  ptype :: PieceType
  squareIndex :: int
  healthPoints :: int

record 'g engine =
  NUM_ROWS :: int
  NUM_SQUARES :: nat
  PLAYER_1 :: int
  reset :: "'g \<Rightarrow> 'g"
  makeAction :: "'g \<Rightarrow> jsnum \<Rightarrow> jsnum \<Rightarrow> 'g"
  legalActionsBySquare :: "'g \<Rightarrow> jsnum \<Rightarrow> PlayerAction list"
  isGameOver :: "'g \<Rightarrow> bool"
  draw :: "'g \<Rightarrow> bool"
  currentPlayer :: "'g \<Rightarrow> int"
  allPiecesByPlayer :: "'g \<Rightarrow> int \<Rightarrow> Piece list"
  boardToString :: "'g \<Rightarrow> string"
  boardFromString :: "'g \<Rightarrow> string \<Rightarrow> 'g"
  moveNumber :: "'g \<Rightarrow> int"

text \<open>The render-facing projection of a piece, \<^verbatim>\<open>{role, color, healthPoints}\<close>.\<close>

record PieceView =
  role :: string
  color :: string
  hp :: int

text \<open>
  \<^verbatim>\<open>board.state\<close>: the fields \<^verbatim>\<open>BoardApi\<close> reads and writes itself, and the rest of the
  widget's state (\<^verbatim>\<open>widget\<close>), which only the widget's own methods touch. A method of the
  widget may change any field, so each is a function on the whole state. \<^verbatim>\<open>board.set\<close>
  is \<open>cg_set\<close> when it is given a configuration object (which it reads in the store)
  and \<open>cg_set_fen\<close> when it is given \<^verbatim>\<open>{fen: ...}\<close>.
\<close>

record 'w cg_state =
  turnColor :: string
  movable_free :: bool
  movable_color :: "string option"
  movable_dests :: "(string \<times> string list) list"
  selected :: "string option"
  widget :: 'w

record 'w chessground =
  cg_set :: "heap \<Rightarrow> val \<Rightarrow> 'w cg_state \<Rightarrow> 'w cg_state"
  cg_set_fen :: "string \<Rightarrow> 'w cg_state \<Rightarrow> 'w cg_state"
  cg_move :: "string \<Rightarrow> string \<Rightarrow> 'w cg_state \<Rightarrow> 'w cg_state"
  cg_setPieces :: "(string \<times> PieceView option) list \<Rightarrow> 'w cg_state \<Rightarrow> 'w cg_state"
  cg_redrawAll :: "'w cg_state \<Rightarrow> 'w cg_state"

section \<open>\<^verbatim>\<open>fullRerender\<close> and \<^verbatim>\<open>possibleMoves\<close> (\<^verbatim>\<open>src/helper/Board.ts\<close>)\<close>

definition nichessTypeToRole :: "PieceType \<Rightarrow> string" where
  "nichessTypeToRole pt = (case pt of
      P1_KING \<Rightarrow> ''king'' | P1_MAGE \<Rightarrow> ''queen'' | P1_WARRIOR \<Rightarrow> ''rook''
    | P1_ASSASSIN \<Rightarrow> ''bishop'' | P1_KNIGHT \<Rightarrow> ''knight'' | P1_PAWN \<Rightarrow> ''pawn''
    | P2_KING \<Rightarrow> ''king'' | P2_MAGE \<Rightarrow> ''queen'' | P2_WARRIOR \<Rightarrow> ''rook''
    | P2_ASSASSIN \<Rightarrow> ''bishop'' | P2_KNIGHT \<Rightarrow> ''knight'' | P2_PAWN \<Rightarrow> ''pawn''
    | NO_PIECE \<Rightarrow> ''error'')"

definition nichessTypeToColor :: "PieceType \<Rightarrow> string" where
  "nichessTypeToColor pt = (case pt of
      P1_KING \<Rightarrow> ''white'' | P1_MAGE \<Rightarrow> ''white'' | P1_WARRIOR \<Rightarrow> ''white''
    | P1_ASSASSIN \<Rightarrow> ''white'' | P1_KNIGHT \<Rightarrow> ''white'' | P1_PAWN \<Rightarrow> ''white''
    | P2_KING \<Rightarrow> ''black'' | P2_MAGE \<Rightarrow> ''black'' | P2_WARRIOR \<Rightarrow> ''black''
    | P2_ASSASSIN \<Rightarrow> ''black'' | P2_KNIGHT \<Rightarrow> ''black'' | P2_PAWN \<Rightarrow> ''black''
    | NO_PIECE \<Rightarrow> ''error'')"

text \<open>The two loops over a player's pieces: a piece without health points is skipped.\<close>

fun setPlayerPieces ::
  "int \<Rightarrow> Piece list \<Rightarrow> (string \<times> PieceView option) list \<Rightarrow> (string \<times> PieceView option) list"
where
  "setPlayerPieces r [] pieceDiff = pieceDiff"
| "setPlayerPieces r (cp # cps) pieceDiff =
     (let key = squareIndexToKey r (Num (squareIndex cp))
      in if healthPoints cp \<le> 0 then setPlayerPieces r cps pieceDiff
         else setPlayerPieces r cps
                (map_set key
                   (Some \<lparr>role = nichessTypeToRole (ptype cp), color = nichessTypeToColor (ptype cp),
                          hp = healthPoints cp\<rparr>)
                   pieceDiff))"

definition clearedSquares :: "int \<Rightarrow> nat \<Rightarrow> (string \<times> PieceView option) list" where
  "clearedSquares r n =
     foldl (\<lambda>pieceDiff i. map_set (squareIndexToKey r (Num (int i))) None pieceDiff) [] [0..<n]"

definition fullRerender ::
  "'g engine \<Rightarrow> 'w chessground \<Rightarrow> 'w cg_state \<Rightarrow> 'g \<Rightarrow> 'w cg_state"
where
  "fullRerender E W cg nichess =
     (let pieceDiff0 = clearedSquares (NUM_ROWS E) (NUM_SQUARES E);
          currentPlayerPieces = allPiecesByPlayer E nichess (currentPlayer E nichess);
          pieceDiff1 = setPlayerPieces (NUM_ROWS E) currentPlayerPieces pieceDiff0;
          otherPlayerPieces = allPiecesByPlayer E nichess (1 - currentPlayer E nichess);
          pieceDiff2 = setPlayerPieces (NUM_ROWS E) otherPlayerPieces pieceDiff1
      in cg_setPieces W pieceDiff2 cg)"

definition possibleMoves :: "'g engine \<Rightarrow> 'g \<Rightarrow> (string \<times> string list) list" where
  "possibleMoves E game =
     foldl (\<lambda>dests i.
              let legalMoves = legalActionsBySquare E game (Num (int i))
              in if legalMoves \<noteq> []
                 then map_set (squareIndexToKey (NUM_ROWS E) (Num (int i)))
                        (map (\<lambda>m. squareIndexToKey (NUM_ROWS E) (Num (dstIdx m))) legalMoves) dests
                 else dests)
       [] [0..<NUM_SQUARES E]"

section \<open>\<^verbatim>\<open>BoardApi\<close> (\<^verbatim>\<open>src/classes/BoardApi.ts\<close>)\<close>

text \<open>
  A move request \<^verbatim>\<open>{from, to, promotion}\<close>; the fields are \<open>orig\<close> and \<open>dest\<close> here.
  The events handed to \<^verbatim>\<open>emit\<close> are collected in a log, and so are the tasks handed to
  \<^verbatim>\<open>nextTick\<close>, which run after the current call has returned.
\<close>

record Move =
  orig :: string
  dest :: string
  promotion :: "string option"

datatype Event = EmitMove Move | EmitDraw | EmitCheckmate string

datatype Task = PlayPremove

text \<open>
  \<^verbatim>\<open>boardState.historyViewerState\<close> is \<^verbatim>\<open>{isEnabled: false}\<close> or
  \<^verbatim>\<open>{isEnabled: true, plyViewing, viewOnly}\<close>. \<open>playerColor\<close> and \<open>boardConfig\<close> are the
  two fields of \<^verbatim>\<open>props\<close> that \<^verbatim>\<open>BoardApi\<close> reads.
\<close>

datatype HistoryViewerState = Live | Viewing (plyViewing: int) (viewOnly: bool)

fun isEnabled :: "HistoryViewerState \<Rightarrow> bool" where
  "isEnabled Live = False"
| "isEnabled (Viewing ply vo) = True"

record ('g, 'w) BoardApi =
  game :: 'g
  board :: "'w cg_state"
  historyViewerState :: HistoryViewerState
  showThreats :: bool
  playerColor :: "string option"
  boardConfig :: val
  emitted :: "Event list"
  nextTicks :: "Task list"

definition emit :: "Event \<Rightarrow> ('g, 'w) BoardApi \<Rightarrow> ('g, 'w) BoardApi" where
  "emit e this = this\<lparr>emitted := emitted this @ [e]\<rparr>"

definition getTurnColor :: "'g engine \<Rightarrow> ('g, 'w) BoardApi \<Rightarrow> string" where
  "getTurnColor E this =
     (if currentPlayer E (game this) = PLAYER_1 E then ''white'' else ''black'')"

definition emitEvents :: "'g engine \<Rightarrow> ('g, 'w) BoardApi \<Rightarrow> ('g, 'w) BoardApi" where
  "emitEvents E this =
     (if isGameOver E (game this)
      then (if draw E (game this) then emit EmitDraw this
            else emit (EmitCheckmate (turnColor (board this))) this)
      else this)"

text \<open>
  \<^verbatim>\<open>this.props.playerColor || this.board.state.turnColor\<close>: an absent or empty player
  colour is falsy.
\<close>

definition truthy_or :: "string option \<Rightarrow> string \<Rightarrow> string" where
  "truthy_or a b = (case a of None \<Rightarrow> b | Some x \<Rightarrow> (if x = [] then b else x))"

definition updateGameState ::
  "'g engine \<Rightarrow> 'w chessground \<Rightarrow> bool \<Rightarrow> ('g, 'w) BoardApi \<Rightarrow> ('g, 'w) BoardApi"
where
  "updateGameState E W updateFen this =
     emitEvents E
       (if \<not> isEnabled (historyViewerState this)
        then (let b1 = (if updateFen then cg_set_fen W (boardToString E (game this)) (board this)
                        else board this);
                  b2 = b1\<lparr>turnColor := getTurnColor E this\<rparr>;
                  b3 = (if movable_free b2
                        then b2\<lparr>movable_color := Some ''both'', movable_dests := []\<rparr>
                        else b2\<lparr>movable_color := Some (truthy_or (playerColor this) (turnColor b2)),
                                movable_dests := possibleMoves E (game this)\<rparr>)
              in this\<lparr>board := b3\<rparr>)
        else this)"

definition forbidMoves :: "('g, 'w) BoardApi \<Rightarrow> ('g, 'w) BoardApi" where
  "forbidMoves this = this\<lparr>board := (board this)\<lparr>movable_color := None\<rparr>\<rparr>"

definition allowMoves :: "('g, 'w) BoardApi \<Rightarrow> ('g, 'w) BoardApi" where
  "allowMoves this = this\<lparr>board := (board this)\<lparr>movable_color := Some (turnColor (board this))\<rparr>\<rparr>"

fun anyActionMatches :: "jsnum \<Rightarrow> jsnum \<Rightarrow> PlayerAction list \<Rightarrow> bool" where
  "anyActionMatches src dst [] = False"
| "anyActionMatches src dst (a # legalActions) =
     (if Num (srcIdx a) = src \<and> Num (dstIdx a) = dst then True
      else anyActionMatches src dst legalActions)"

definition isMoveLegal :: "'g engine \<Rightarrow> Move \<Rightarrow> ('g, 'w) BoardApi \<Rightarrow> bool" where
  "isMoveLegal E mv this =
     (let src = keyToSquareIndex (NUM_ROWS E) (orig mv);
          dst = keyToSquareIndex (NUM_ROWS E) (dest mv);
          legalActions = legalActionsBySquare E (game this) src
      in anyActionMatches src dst legalActions)"

text \<open>
  \<^verbatim>\<open>move(move: string | Move, emitEvent = true)\<close>: the argument is a string (\<^term>\<open>Inl\<close>)
  or a move object (\<^term>\<open>Inr\<close>). The result is the returned boolean and the state after
  the call.
\<close>

definition move ::
  "'g engine \<Rightarrow> 'w chessground \<Rightarrow> string + Move \<Rightarrow> bool \<Rightarrow> ('g, 'w) BoardApi
     \<Rightarrow> bool \<times> ('g, 'w) BoardApi"
where
  "move E W mv emitEvent this =
     (case mv of
        Inr m \<Rightarrow>
          (let src = keyToSquareIndex (NUM_ROWS E) (orig m);
               dst = keyToSquareIndex (NUM_ROWS E) (dest m);
               t1 = this\<lparr>game := makeAction E (game this) src dst\<rparr>;
               t2 = t1\<lparr>board := cg_move W (orig m) (dest m) (board t1)\<rparr>;
               t3 = t2\<lparr>board := fullRerender E W (board t2) (game t2)\<rparr>;
               t4 = (if emitEvent then emit (EmitMove m) t3 else t3);
               t5 = updateGameState E W False t4;
               t6 = t5\<lparr>nextTicks := nextTicks t5 @ [PlayPremove]\<rparr>;
               t7 = (if isGameOver E (game t6) then forbidMoves t6 else t6)
           in (True, t7))
      | Inl san \<Rightarrow> (False, this))"

text \<open>\<^verbatim>\<open>changeTurn\<close>, the handler behind \<^verbatim>\<open>movable.events.after\<close>.\<close>

definition changeTurn ::
  "'g engine \<Rightarrow> 'w chessground \<Rightarrow> string \<Rightarrow> string \<Rightarrow> ('g, 'w) BoardApi \<Rightarrow> ('g, 'w) BoardApi"
where
  "changeTurn E W from_key to_key this =
     snd (move E W (Inr \<lparr>orig = from_key, dest = to_key, promotion = None\<rparr>) True this)"

definition getCurrentTurnNumber :: "'g engine \<Rightarrow> ('g, 'w) BoardApi \<Rightarrow> int" where
  "getCurrentTurnNumber E this = moveNumber E (game this)"

definition getCurrentPlyNumber :: "'g engine \<Rightarrow> ('g, 'w) BoardApi \<Rightarrow> int" where
  "getCurrentPlyNumber E this =
     2 * getCurrentTurnNumber E this - (if getTurnColor E this = ''black'' then 1 else 2)"

subsection \<open>\<^verbatim>\<open>setPosition\<close>, \<^verbatim>\<open>setConfig\<close>, \<^verbatim>\<open>resetBoard\<close>\<close>

definition setPosition ::
  "'g engine \<Rightarrow> 'w chessground \<Rightarrow> string \<Rightarrow> ('g, 'w) BoardApi \<Rightarrow> ('g, 'w) BoardApi"
where
  "setPosition E W fen this =
     updateGameState E W True
       (this\<lparr>game := boardFromString E (game this) fen, historyViewerState := Live\<rparr>)"

text \<open>
  What a call of \<^verbatim>\<open>setConfig\<close> can end with instead of returning: the bound on the
  recursion of \<^verbatim>\<open>deepMergeConfig\<close> is reached; JavaScript throws a \<^verbatim>\<open>TypeError\<close> (a
  property of \<^verbatim>\<open>undefined\<close> or \<^verbatim>\<open>null\<close> is read, or \<^verbatim>\<open>in\<close> is applied to a primitive); the
  field \<^verbatim>\<open>fen\<close> is truthy and not a string, which the type \<^verbatim>\<open>BoardConfig\<close> excludes.
\<close>

datatype fault = OutOfFuel | TypeError | IllTyped

text \<open>What the function behind a value does when it is called.\<close>

definition hook_of :: "heap \<Rightarrow> val \<Rightarrow> hook" where
  "hook_of h v =
     (case v of
        Ref a \<Rightarrow> (case cell_at h a of Some (Function f) \<Rightarrow> f | _ \<Rightarrow> NotCallable)
      | _ \<Rightarrow> NotCallable)"

definition has_own :: "heap \<Rightarrow> val \<Rightarrow> string \<Rightarrow> bool" where
  "has_own h v key = (key \<in> set (map fst (entries h v)))"

text \<open>
  The block of \<^verbatim>\<open>setConfig\<close> that patches \<^verbatim>\<open>changeTurn\<close> onto \<^verbatim>\<open>movable.events.after\<close>. It
  assigns to the property \<^verbatim>\<open>after\<close> of the object \<^verbatim>\<open>config.movable.events\<close> itself: a new
  function that runs \<^verbatim>\<open>changeTurn\<close> and then \<^verbatim>\<open>userAfter\<close> when \<^verbatim>\<open>userAfter\<close> is truthy, and
  the bound \<^verbatim>\<open>changeTurn\<close> otherwise.
\<close>

definition patchAfter :: "heap \<Rightarrow> val \<Rightarrow> fault + heap" where
  "patchAfter h config =
     (if config = Undefined \<or> config = Null then Inl TypeError
      else
        let movable = get h config ''movable'';
            events = (if movable = Undefined \<or> movable = Null then Undefined
                      else get h movable ''events'')
        in if \<not> truthy events then Inr h
           else (case events of
                   Ref e \<Rightarrow>
                     if has_own h events ''after''
                     then (let userAfter = get h events ''after'';
                               wrapper = (if truthy userAfter then Patched (hook_of h userAfter)
                                          else BoundChangeTurn);
                               h1 = h @ [Function wrapper]
                           in Inr (set_prop h1 e ''after'' (Ref (length h))))
                     else Inr h
                 | _ \<Rightarrow> Inl TypeError))"

text \<open>
  \<^verbatim>\<open>setConfig(config, fillDefaults)\<close>. \<open>fuel\<close> bounds the recursion of \<^verbatim>\<open>deepMergeConfig\<close>.
  The rest object \<^verbatim>\<open>configWithoutFen\<close> is a new object with the properties of \<^verbatim>\<open>config\<close>
  other than \<^verbatim>\<open>fen\<close>.
\<close>

definition setConfig ::
  "'g engine \<Rightarrow> 'w chessground \<Rightarrow> nat \<Rightarrow> val \<Rightarrow> bool \<Rightarrow> heap \<times> ('g, 'w) BoardApi
     \<Rightarrow> fault + heap \<times> ('g, 'w) BoardApi"
where
  "setConfig E W fuel config fillDefaults st =
     (case st of (h, this) \<Rightarrow>
       (case (if fillDefaults
              then (case deepMergeConfig fuel defaultBoardConfig config h of
                      None \<Rightarrow> Inl OutOfFuel
                    | Some (merged, h1) \<Rightarrow>
                        Inr (merged, h1, this\<lparr>board := (board this)\<lparr>selected := None\<rparr>\<rparr>))
              else Inr (config, h, this)) of
          Inl e \<Rightarrow> Inl e
        | Inr (config1, h1, this1) \<Rightarrow>
            (case patchAfter h1 config1 of
               Inl e \<Rightarrow> Inl e
             | Inr h2 \<Rightarrow>
                 (let fen = get h2 config1 ''fen'';
                      configWithoutFen = Ref (length h2);
                      h3 = h2 @ [Plain (filter (\<lambda>(k, x). k \<noteq> ''fen'') (entries h2 config1))];
                      this2 = this1\<lparr>board := cg_set W h3 configWithoutFen (board this1)\<rparr>
                  in if truthy fen
                     then (case fen of
                             Str s \<Rightarrow>
                               (let this3 = setPosition E W s this2
                                in Inr (h3, this3\<lparr>board := cg_redrawAll W (board this3)\<rparr>))
                           | _ \<Rightarrow> Inl IllTyped)
                     else Inr (h3, this2\<lparr>board := cg_redrawAll W (board this2)\<rparr>)))))"

definition resetBoard ::
  "'g engine \<Rightarrow> 'w chessground \<Rightarrow> nat \<Rightarrow> heap \<times> ('g, 'w) BoardApi
     \<Rightarrow> fault + heap \<times> ('g, 'w) BoardApi"
where
  "resetBoard E W fuel st =
     (case st of (h, this) \<Rightarrow>
        (let t1 = this\<lparr>game := reset E (game this)\<rparr>;
             t2 = t1\<lparr>board := fullRerender E W (board t1) (game t1)\<rparr>
         in setConfig E W fuel (boardConfig t2) True (h, t2)))"

text \<open>
  What the board's call of the function in \<^verbatim>\<open>movable.events.after\<close> does to the bridge,
  and how many times it runs \<^verbatim>\<open>changeTurn\<close>. The functions of the caller are not part of
  the repository; they are taken to leave the bridge as it is.
\<close>

fun runAfter ::
  "'g engine \<Rightarrow> 'w chessground \<Rightarrow> hook \<Rightarrow> string \<Rightarrow> string \<Rightarrow> ('g, 'w) BoardApi \<Rightarrow> ('g, 'w) BoardApi"
where
  "runAfter E W EmptyFn a b this = this"
| "runAfter E W (UserFn k) a b this = this"
| "runAfter E W BoundChangeTurn a b this = changeTurn E W a b this"
| "runAfter E W (Patched userAfter) a b this = runAfter E W userAfter a b (changeTurn E W a b this)"
| "runAfter E W NotCallable a b this = this"

fun changeTurnCalls :: "hook \<Rightarrow> nat" where
  "changeTurnCalls EmptyFn = 0"
| "changeTurnCalls (UserFn k) = 0"
| "changeTurnCalls BoundChangeTurn = 1"
| "changeTurnCalls (Patched userAfter) = 1 + changeTurnCalls userAfter"
| "changeTurnCalls NotCallable = 0"

subsection \<open>The operations whose body is \<^verbatim>\<open>// TODO\<close>\<close>

definition undoLastMove :: "('g, 'w) BoardApi \<Rightarrow> ('g, 'w) BoardApi" where
  "undoLastMove this = this"

definition loadPgn :: "string \<Rightarrow> ('g, 'w) BoardApi \<Rightarrow> ('g, 'w) BoardApi" where
  "loadPgn pgn this = this"

definition getLastMove :: "('g, 'w) BoardApi \<Rightarrow> Move option \<times> ('g, 'w) BoardApi" where
  "getLastMove this = (None, this)"

definition getHistory :: "bool \<Rightarrow> ('g, 'w) BoardApi \<Rightarrow> Move list \<times> ('g, 'w) BoardApi" where
  "getHistory verbose this = ([], this)"

definition getBoardPosition ::
  "('g, 'w) BoardApi \<Rightarrow> (string \<times> string \<times> string) option list list \<times> ('g, 'w) BoardApi"
where
  "getBoardPosition this = ([], this)"

definition getPgnInfo :: "('g, 'w) BoardApi \<Rightarrow> (string \<times> string option) list \<times> ('g, 'w) BoardApi" where
  "getPgnInfo this = ([], this)"

definition viewHistory :: "int \<Rightarrow> ('g, 'w) BoardApi \<Rightarrow> ('g, 'w) BoardApi" where
  "viewHistory ply this = this"

definition stopViewingHistory :: "'g engine \<Rightarrow> ('g, 'w) BoardApi \<Rightarrow> ('g, 'w) BoardApi" where
  "stopViewingHistory E this =
     (if isEnabled (historyViewerState this) then viewHistory (getCurrentPlyNumber E this) this
      else this)"

definition viewStart :: "('g, 'w) BoardApi \<Rightarrow> ('g, 'w) BoardApi" where
  "viewStart this = viewHistory 0 this"

definition viewNext :: "('g, 'w) BoardApi \<Rightarrow> ('g, 'w) BoardApi" where
  "viewNext this =
     (case historyViewerState this of
        Viewing ply vo \<Rightarrow> viewHistory (ply + 1) this
      | Live \<Rightarrow> this)"

definition viewPrevious :: "'g engine \<Rightarrow> ('g, 'w) BoardApi \<Rightarrow> ('g, 'w) BoardApi" where
  "viewPrevious E this =
     (let ply = (case historyViewerState this of
                   Viewing p vo \<Rightarrow> p
                 | Live \<Rightarrow> getCurrentPlyNumber E this)
      in viewHistory (ply - 1) this)"

section \<open>Stand-ins for the collaborators, for the concrete instances\<close>

text \<open>
  The theorems about \<^verbatim>\<open>BoardApi\<close> hold for every engine and every board. To evaluate
  them on a concrete position, \<open>demoEngine n\<close> is a small rules engine on the 8\<times>8 board:
  its state is the list of the actions applied so far, it applies whatever action it
  is given, its legal actions in the start position are those of
  \<^verbatim>\<open>possibleMovesWhite\<close>, and its game is over once \<open>n\<close> actions have been applied.
  \<open>demoBoard\<close> is a visual board that keeps one thing of a configuration it is given,
  the function of \<^verbatim>\<open>movable.events.after\<close> (when the configuration has that property),
  and whose other methods leave \<^verbatim>\<open>board.state\<close> as it is.
\<close>

record demoGame =
  applied :: "(jsnum \<times> jsnum) list"

definition openingActions :: "jsnum \<Rightarrow> PlayerAction list" where
  "openingActions idx =
     concat (map (\<lambda>(k, ds).
                    if keyToSquareIndex 8 k = idx
                    then concat (map (\<lambda>d. case (keyToSquareIndex 8 k, keyToSquareIndex 8 d) of
                                             (Num s, Num t) \<Rightarrow> [\<lparr>srcIdx = s, dstIdx = t\<rparr>]
                                           | _ \<Rightarrow> []) ds)
                    else [])
               possibleMovesWhite)"

definition demoEngine :: "nat \<Rightarrow> demoGame engine" where
  "demoEngine n =
     \<lparr>NUM_ROWS = 8, NUM_SQUARES = 64, PLAYER_1 = 0,
      reset = (\<lambda>g. \<lparr>applied = []\<rparr>),
      makeAction = (\<lambda>g s d. g\<lparr>applied := applied g @ [(s, d)]\<rparr>),
      legalActionsBySquare = (\<lambda>g idx. if applied g = [] then openingActions idx else []),
      isGameOver = (\<lambda>g. n \<le> length (applied g)),
      draw = (\<lambda>g. False),
      currentPlayer = (\<lambda>g. int (length (applied g) mod 2)),
      allPiecesByPlayer = (\<lambda>g p. []),
      boardToString = (\<lambda>g. []),
      boardFromString = (\<lambda>g s. g),
      moveNumber = (\<lambda>g. int (length (applied g) div 2) + 1)\<rparr>"

definition installedAfter :: "heap \<Rightarrow> val \<Rightarrow> hook option \<Rightarrow> hook option" where
  "installedAfter h config installed =
     (let events = get h (get h config ''movable'') ''events''
      in if has_own h events ''after'' then Some (hook_of h (get h events ''after''))
         else installed)"

definition demoBoard :: "(hook option) chessground" where
  "demoBoard =
     \<lparr>cg_set = (\<lambda>h config s. s\<lparr>widget := installedAfter h config (widget s)\<rparr>),
      cg_set_fen = (\<lambda>fen s. s), cg_move = (\<lambda>a b s. s), cg_setPieces = (\<lambda>d s. s),
      cg_redrawAll = (\<lambda>s. s)\<rparr>"

definition demoStart :: "(demoGame, hook option) BoardApi" where
  "demoStart =
     \<lparr>game = \<lparr>applied = []\<rparr>,
      board = \<lparr>turnColor = ''white'', movable_free = False, movable_color = Some ''white'',
               movable_dests = possibleMovesWhite, selected = None, widget = None\<rparr>,
      historyViewerState = Live, showThreats = False, playerColor = None,
      boardConfig = Undefined, emitted = [], nextTicks = []\<rparr>"

definition mv :: "string \<Rightarrow> string \<Rightarrow> Move" where
  "mv a b = \<lparr>orig = a, dest = b, promotion = None\<rparr>"

text \<open>The state after one and after three moves of the stand-in game.\<close>

definition demoAfter :: "nat \<Rightarrow> Move \<Rightarrow> (demoGame, hook option) BoardApi" where
  "demoAfter n m = snd (move (demoEngine n) demoBoard (Inr m) True demoStart)"

definition demoThreeMoves :: "(demoGame, hook option) BoardApi" where
  "demoThreeMoves =
     snd (move (demoEngine 9) demoBoard (Inr (mv ''g1'' ''f3'')) True
       (snd (move (demoEngine 9) demoBoard (Inr (mv ''e7'' ''e5'')) True
         (snd (move (demoEngine 9) demoBoard (Inr (mv ''e2'' ''e4'')) True demoStart)))))"

subsection \<open>Concrete configurations\<close>

text \<open>
  \<open>getPath\<close> reads a chain of properties, \<^verbatim>\<open>v.a.b.c\<close>; \<open>cellOf\<close> is the object behind
  a value.
\<close>

definition getPath :: "heap \<Rightarrow> val \<Rightarrow> string list \<Rightarrow> val" where
  "getPath h v path = foldl (get h) v path"

definition cellOf :: "heap \<Rightarrow> val \<Rightarrow> cell option" where
  "cellOf h v = (case v of Ref a \<Rightarrow> cell_at h a | _ \<Rightarrow> None)"

text \<open>
  A caller's configuration \<^verbatim>\<open>{movable: {events: {after: f}}}\<close> with a function \<open>f\<close> of
  the caller, created after the module has been loaded, and \<^verbatim>\<open>setConfig\<close> called twice
  with that same object.
\<close>

definition callerConfigLit :: lit where
  "callerConfigLit = LObj [(''movable'', LObj [(''events'', LObj [(''after'', LFun (UserFn 1))])])]"

definition callerConfig :: val where
  "callerConfig = fst (evalLit callerConfigLit moduleHeap)"

definition callerHeap :: heap where
  "callerHeap = snd (evalLit callerConfigLit moduleHeap)"

definition setConfigTwice :: "bool \<Rightarrow> fault + heap \<times> (demoGame, hook option) BoardApi" where
  "setConfigTwice fillDefaults =
     (case setConfig (demoEngine 9) demoBoard 4 callerConfig fillDefaults (callerHeap, demoStart) of
        Inl e \<Rightarrow> Inl e
      | Inr st \<Rightarrow> setConfig (demoEngine 9) demoBoard 4 callerConfig fillDefaults st)"

text \<open>Of the outcome of \<^verbatim>\<open>setConfig\<close>: the function the board was given, and the function in
  the slot \<^verbatim>\<open>movable.events.after\<close> of the caller's object.\<close>

definition afterInstalled :: "fault + heap \<times> (demoGame, hook option) BoardApi \<Rightarrow> hook option" where
  "afterInstalled r = (case r of Inr (h, this) \<Rightarrow> widget (board this) | Inl e \<Rightarrow> None)"

definition afterOfCaller :: "fault + heap \<times> (demoGame, hook option) BoardApi \<Rightarrow> hook option" where
  "afterOfCaller r =
     (case r of
        Inr (h, this) \<Rightarrow> Some (hook_of h (getPath h callerConfig [''movable'', ''events'', ''after'']))
      | Inl e \<Rightarrow> None)"

text \<open>
  Two configurations that differ in \<^verbatim>\<open>viewOnly\<close> and in the \<^verbatim>\<open>Map\<close> of \<^verbatim>\<open>movable.dests\<close>,
  their difference, and the difference merged onto the old one.
\<close>

definition oldConfigLit :: lit where
  "oldConfigLit = LObj
     [(''viewOnly'', LBool False),
      (''movable'', LObj [(''dests'', LMap [(''e2'', [''e3'', ''e4''])])])]"

definition newConfigLit :: lit where
  "newConfigLit = LObj
     [(''viewOnly'', LBool True),
      (''movable'', LObj [(''dests'', LMap [(''e7'', [''e6'', ''e5''])])])]"

definition twoConfigs :: "val \<times> val \<times> heap" where
  "twoConfigs =
     (case evalLit oldConfigLit [] of (oldConfig, h1) \<Rightarrow>
        (case evalLit newConfigLit h1 of (newConfig, h2) \<Rightarrow> (oldConfig, newConfig, h2)))"

definition diffOfTwo :: "(val \<times> heap) option" where
  "diffOfTwo = (case twoConfigs of (oldConfig, newConfig, h) \<Rightarrow> deepDiffConfig 3 oldConfig newConfig h)"

definition mergeOfDiff :: "(val \<times> heap) option" where
  "mergeOfDiff =
     (case twoConfigs of (oldConfig, newConfig, h) \<Rightarrow>
        (case deepDiffConfig 3 oldConfig newConfig h of
           None \<Rightarrow> None
         | Some (diff, h1) \<Rightarrow> deepMergeConfig 3 oldConfig diff h1))"

text \<open>\<^verbatim>\<open>deepMergeConfig(defaultBoardConfig, {})\<close>, the merge of \<^verbatim>\<open>setConfig({}, true)\<close>.\<close>

definition mergeDefaultWithEmpty :: "(val \<times> heap) option" where
  "mergeDefaultWithEmpty =
     (case evalLit (LObj []) moduleHeap of (src, h) \<Rightarrow> deepMergeConfig 4 defaultBoardConfig src h)"

text \<open>Of the outcome of a merge or a difference: the object at a path, and the value there.\<close>

definition cellAtPath :: "(val \<times> heap) option \<Rightarrow> string list \<Rightarrow> cell option" where
  "cellAtPath r path = (case r of Some (v, h) \<Rightarrow> cellOf h (getPath h v path) | None \<Rightarrow> None)"

definition valueAtPath :: "(val \<times> heap) option \<Rightarrow> string list \<Rightarrow> val option" where
  "valueAtPath r path = (case r of Some (v, h) \<Rightarrow> Some (getPath h v path) | None \<Rightarrow> None)"

section \<open>Trees of plain objects\<close>

text \<open>
  What \<^verbatim>\<open>deepCopy\<close>, \<^verbatim>\<open>deepMergeConfig\<close> and \<^verbatim>\<open>deepDiffConfig\<close> do on a configuration none of
  whose objects is a \<^verbatim>\<open>Map\<close> is stated with the notions of this section. They are not
  part of the program.

  \<open>wfTree n h v\<close>: in the store \<open>h\<close> the value \<open>v\<close> is a tree of depth at most \<open>n\<close>: every
  reference in it is allocated, every value \<^verbatim>\<open>isObject\<close> holds of is a plain object,
  and no object has two properties of the same name. The tree may share objects
  between its branches.
\<close>

definition valid :: "heap \<Rightarrow> val \<Rightarrow> bool" where
  "valid h v = (case v of Ref a \<Rightarrow> a < length h | _ \<Rightarrow> True)"

primrec wfTree :: "nat \<Rightarrow> heap \<Rightarrow> val \<Rightarrow> bool" where
  "wfTree 0 h v = (valid h v \<and> \<not> isObject h v)"
| "wfTree (Suc n) h v =
     (valid h v \<and>
      (if isObject h v
       then cellOf h v = Some (Plain (entries h v)) \<and>
            distinct (map fst (entries h v)) \<and> list_all (wfTree n h) (map snd (entries h v))
       else True))"

text \<open>
  The shape of a value: what reading properties can observe of it. A plain object is a
  node with the shapes of its properties; every other value (a primitive, an array, a
  function) is a leaf, compared as \<^verbatim>\<open>===\<close> compares it.
\<close>

datatype shape = Leaf val | Node "(string \<times> shape) list"

primrec shapeOf :: "nat \<Rightarrow> heap \<Rightarrow> val \<Rightarrow> shape" where
  "shapeOf 0 h v = Leaf v"
| "shapeOf (Suc n) h v =
     (if isObject h v then Node (map (\<lambda>(k, x). (k, shapeOf n h x)) (entries h v)) else Leaf v)"

text \<open>\<open>fresh n b h v\<close>: every plain object of the tree \<open>v\<close> has an address from \<open>b\<close> on, so
  it was created after the store had \<open>b\<close> cells. \<open>refs n h v\<close> are the addresses in the tree.\<close>

primrec fresh :: "nat \<Rightarrow> nat \<Rightarrow> heap \<Rightarrow> val \<Rightarrow> bool" where
  "fresh 0 b h v = True"
| "fresh (Suc n) b h v =
     (if isObject h v
      then (case v of Ref a \<Rightarrow> b \<le> a | _ \<Rightarrow> True) \<and> list_all (fresh n b h) (map snd (entries h v))
      else True)"

fun addrs :: "val \<Rightarrow> addr set" where
  "addrs (Ref a) = {a}"
| "addrs v = {}"

primrec refs :: "nat \<Rightarrow> heap \<Rightarrow> val \<Rightarrow> addr set" where
  "refs 0 h v = addrs v"
| "refs (Suc n) h v =
     addrs v \<union> (if isObject h v then \<Union> (set (map (refs n h) (map snd (entries h v)))) else {})"

text \<open>\<open>agreeOn A h h2\<close>: the stores \<open>h\<close> and \<open>h2\<close> have the same cells at the addresses \<open>A\<close>.\<close>

definition agreeOn :: "addr set \<Rightarrow> heap \<Rightarrow> heap \<Rightarrow> bool" where
  "agreeOn A h h2 = (\<forall>a\<in>A. cell_at h2 a = cell_at h a)"

subsection \<open>Merge and difference of shapes\<close>

text \<open>
  \<open>fieldOf t k\<close> is \<^verbatim>\<open>t[k]\<close>, \<^verbatim>\<open>undefined\<close> where there is no such property. \<open>mergeShape\<close> is
  the merge on shapes: the properties of the target overridden by those of the source,
  merged where both are objects. \<open>diffShape\<close> is the difference on shapes: the
  properties of the new configuration that differ from the old one, an object being
  kept only if its own difference is not empty.
\<close>

fun fieldsOf :: "shape \<Rightarrow> (string \<times> shape) list" where
  "fieldsOf (Node fs) = fs"
| "fieldsOf (Leaf v) = []"

fun isNode :: "shape \<Rightarrow> bool" where
  "isNode (Node fs) = True"
| "isNode (Leaf v) = False"

definition fieldOf :: "shape \<Rightarrow> string \<Rightarrow> shape" where
  "fieldOf t k = (case map_of (fieldsOf t) k of Some x \<Rightarrow> x | None \<Rightarrow> Leaf Undefined)"

definition spreadS :: "(string \<times> shape) list \<Rightarrow> (string \<times> shape) list \<Rightarrow> (string \<times> shape) list" where
  "spreadS fs props = foldl (\<lambda>acc (k, x). map_set k x acc) props fs"

function mergeShape :: "shape \<Rightarrow> shape \<Rightarrow> shape" where
  "mergeShape t s =
     Node (map (\<lambda>(k, x). (k, if isNode (fieldOf t k) \<and> isNode (fieldOf s k)
                              then mergeShape (fieldOf t k) (fieldOf s k) else x))
             (spreadS (fieldsOf s) (spreadS (fieldsOf t) [])))"
  by pat_completeness auto
termination
proof (relation "measure (\<lambda>(t, s). size t)")
  show "wf (measure (\<lambda>(t, s). size t))" by simp
next
  fix t s :: shape and kx :: "string \<times> shape" and k :: string and x :: shape
  assume "isNode (fieldOf t k) \<and> isNode (fieldOf s k)"
  then have n: "isNode (fieldOf t k)" by simp
  then obtain y where y: "map_of (fieldsOf t) k = Some y" and f: "fieldOf t k = y"
    by (cases "map_of (fieldsOf t) k") (auto simp: fieldOf_def)
  then obtain fs where t: "t = Node fs" by (cases t) auto
  have "(k, y) \<in> set fs" using y t by (auto dest: map_of_SomeD)
  then have "size y < size (Node fs)"
    by (induction fs) auto
  then show "((fieldOf t k, fieldOf s k), (t, s)) \<in> measure (\<lambda>(t, s). size t)"
    using f t by simp
qed

declare mergeShape.simps [simp del]

function diffShape :: "shape \<Rightarrow> shape \<Rightarrow> shape" where
  "diffShape old new =
     Node (concat (map (\<lambda>(k, x).
                     if isNode (fieldOf old k) \<and> isNode x
                     then (if fieldsOf (diffShape (fieldOf old k) x) \<noteq> []
                           then [(k, diffShape (fieldOf old k) x)] else [])
                     else if fieldOf old k \<noteq> x then [(k, x)] else [])
             (fieldsOf new)))"
  by pat_completeness auto
termination
proof (relation "measure (\<lambda>(old, new). size new)")
  show "wf (measure (\<lambda>(old, new). size new))" by simp
next
  fix old new :: shape and kx :: "string \<times> shape" and k :: string and x :: shape
  assume "kx \<in> set (fieldsOf new)" and "(k, x) = kx"
  then have m: "(k, x) \<in> set (fieldsOf new)" by simp
  then obtain fs where t: "new = Node fs" by (cases new) auto
  have "(k, x) \<in> set fs" using m t by simp
  then have "size x < size (Node fs)" by (induction fs) auto
  then show "((fieldOf old k, x), (old, new)) \<in> measure (\<lambda>(old, new). size new)"
    using t by simp
  then show "((fieldOf old k, x), (old, new)) \<in> measure (\<lambda>(old, new). size new)" .
qed

declare diffShape.simps [simp del]

definition diffEntry :: "shape \<Rightarrow> string \<Rightarrow> shape \<Rightarrow> (string \<times> shape) list" where
  "diffEntry old k x =
     (if isNode (fieldOf old k) \<and> isNode x
      then (if fieldsOf (diffShape (fieldOf old k) x) \<noteq> [] then [(k, diffShape (fieldOf old k) x)] else [])
      else if fieldOf old k \<noteq> x then [(k, x)] else [])"

text \<open>\<open>wfS\<close>: no node has two properties of the same name. \<open>agreeS new r\<close>: reading a
  property of \<open>new\<close> from \<open>r\<close> gives an object where \<open>new\<close> has one, and the same value at
  the leaves of \<open>new\<close>. It is agreement of what is read, not of which keys are present:
  \<open>r\<close> may have more properties, and a property of \<open>new\<close> that holds \<^verbatim>\<open>undefined\<close> may be
  missing from \<open>r\<close>, where reading it gives \<^verbatim>\<open>undefined\<close> as well.\<close>

fun wfS :: "shape \<Rightarrow> bool" where
  "wfS (Leaf v) = True"
| "wfS (Node fs) = (distinct (map fst fs) \<and> list_all wfS (map snd fs))"

function agreeS :: "shape \<Rightarrow> shape \<Rightarrow> bool" where
  "agreeS new r =
     list_all (\<lambda>(k, x). if isNode x then isNode (fieldOf r k) \<and> agreeS x (fieldOf r k) else fieldOf r k = x)
       (fieldsOf new)"
  by pat_completeness auto
termination
proof (relation "measure (\<lambda>(new, r). size new)")
  show "wf (measure (\<lambda>(new, r). size new))" by simp
next
  fix new r :: shape and kx :: "string \<times> shape" and k :: string and x :: shape
  assume "kx \<in> set (fieldsOf new)" and "(k, x) = kx"
  then have m: "(k, x) \<in> set (fieldsOf new)" by simp
  then obtain fs where t: "new = Node fs" by (cases new) auto
  have "(k, x) \<in> set fs" using m t by simp
  then have "size x < size (Node fs)" by (induction fs) auto
  then show "((x, fieldOf r k), (new, r)) \<in> measure (\<lambda>(new, r). size new)"
    using t by simp
qed

declare agreeS.simps [simp del]

subsection \<open>What a call returns\<close>

text \<open>
  \<open>built n b h' v R\<close>: in the store \<open>h'\<close> the value \<open>v\<close> is a well-formed tree, its plain
  objects were all created from address \<open>b\<close> on, and every address in it is one of \<open>R\<close>
  or was created from \<open>b\<close> on. \<open>copies\<close>, \<open>merges\<close> and \<open>diffs\<close> are what the three functions
  are shown to do at a given depth: the call returns, the store it returns is the
  store it was given followed by new cells, and the result has the shape of the
  argument, of the merge, of the difference.
\<close>

definition built :: "nat \<Rightarrow> nat \<Rightarrow> heap \<Rightarrow> val \<Rightarrow> addr set \<Rightarrow> bool" where
  "built n b h' v R =
     (wfTree n h' v \<and> fresh n b h' v \<and> refs n h' v \<subseteq> R \<union> {b..<length h'})"

definition copies :: "nat \<Rightarrow> (val \<Rightarrow> heap \<Rightarrow> (val \<times> heap) option) \<Rightarrow> bool" where
  "copies n f = (\<forall>v h. wfTree n h v \<longrightarrow>
     (\<exists>v' ext. f v h = Some (v', h @ ext) \<and> built n (length h) (h @ ext) v' (refs n h v) \<and>
        shapeOf n (h @ ext) v' = shapeOf n h v))"

definition merges :: "nat \<Rightarrow> (val \<Rightarrow> val \<Rightarrow> heap \<Rightarrow> (val \<times> heap) option) \<Rightarrow> bool" where
  "merges n f = (\<forall>t s h. wfTree n h t \<and> wfTree n h s \<and> isObject h t \<and> isObject h s \<longrightarrow>
     (\<exists>v' ext. f t s h = Some (v', h @ ext) \<and> built n (length h) (h @ ext) v' (refs n h t \<union> refs n h s) \<and>
        shapeOf n (h @ ext) v' = mergeShape (shapeOf n h t) (shapeOf n h s)))"

definition diffs :: "nat \<Rightarrow> (val \<Rightarrow> val \<Rightarrow> heap \<Rightarrow> (val \<times> heap) option) \<Rightarrow> bool" where
  "diffs n f = (\<forall>old new h. wfTree n h old \<and> wfTree n h new \<and> isObject h old \<and> isObject h new \<longrightarrow>
     (\<exists>v' ext. f old new h = Some (v', h @ ext) \<and> isObject (h @ ext) v' \<and> wfTree n (h @ ext) v' \<and>
        refs n (h @ ext) v' \<subseteq> refs n h new \<union> {length h..<length (h @ ext)} \<and>
        shapeOf n (h @ ext) v' = diffShape (shapeOf n h old) (shapeOf n h new)))"


subsection \<open>Two configurations of plain objects\<close>

text \<open>
  Two configurations without a \<^verbatim>\<open>Map\<close> that differ only in \<^verbatim>\<open>viewOnly\<close> and in
  \<^verbatim>\<open>animation.duration\<close>, their difference, and the difference merged onto the old one;
  \<open>shapeOfResult\<close> is the shape of what a call returned.
\<close>

definition plainOldLit :: lit where
  "plainOldLit = LObj
     [(''viewOnly'', LBool False),
      (''animation'', LObj [(''enabled'', LBool True), (''duration'', LNum 200)]),
      (''orientation'', LStr ''white'')]"

definition plainNewLit :: lit where
  "plainNewLit = LObj
     [(''viewOnly'', LBool True),
      (''animation'', LObj [(''enabled'', LBool True), (''duration'', LNum 500)]),
      (''orientation'', LStr ''white'')]"

definition plainHeap :: heap where
  "plainHeap = snd (evalLit plainNewLit (snd (evalLit plainOldLit [])))"

definition plainOld :: val where
  "plainOld = fst (evalLit plainOldLit [])"

definition plainNew :: val where
  "plainNew = fst (evalLit plainNewLit (snd (evalLit plainOldLit [])))"

definition diffOfPlain :: "(val \<times> heap) option" where
  "diffOfPlain = deepDiffConfig 3 plainOld plainNew plainHeap"

definition mergeOfPlainDiff :: "(val \<times> heap) option" where
  "mergeOfPlainDiff =
     (case deepDiffConfig 3 plainOld plainNew plainHeap of
        None \<Rightarrow> None
      | Some (diff, h1) \<Rightarrow> deepMergeConfig 3 plainOld diff h1)"

definition mergePlainWithEmpty :: "(val \<times> heap) option" where
  "mergePlainWithEmpty =
     (case evalLit (LObj []) plainHeap of (src, h) \<Rightarrow> deepMergeConfig 3 plainOld src h)"

definition shapeOfResult :: "(val \<times> heap) option \<Rightarrow> shape option" where
  "shapeOfResult r = (case r of Some (v, h) \<Rightarrow> Some (shapeOf 3 h v) | None \<Rightarrow> None)"
section \<open>The coordinate mapping\<close>

lemma lt8_cases:
  "(c::nat) < 8 \<Longrightarrow> c = 0 \<or> c = 1 \<or> c = 2 \<or> c = 3 \<or> c = 4 \<or> c = 5 \<or> c = 6 \<or> c = 7"
  by arith

lemma lt10_cases:
  "(d::nat) < 10 \<Longrightarrow>
     d = 0 \<or> d = 1 \<or> d = 2 \<or> d = 3 \<or> d = 4 \<or> d = 5 \<or> d = 6 \<or> d = 7 \<or> d = 8 \<or> d = 9"
  by arith

lemma file_of_x_col: "c < 8 \<Longrightarrow> file_of_x (Num (int c + 1)) = [''abcdefgh'' ! c]"
  using lt8_cases [of c] by auto

lemma x_of_firstChar_col: "c < 8 \<Longrightarrow> x_of_firstChar (Some (''abcdefgh'' ! c)) = int c"
  using lt8_cases [of c] by (auto simp: x_of_firstChar_def)

lemma digit_of_digit_char: "d < 10 \<Longrightarrow> digit_of (digit_char d) = Some (int d)"
  using lt10_cases [of d] by (auto simp: digit_of_def digit_char_def)

lemma show_nat_digit: "d < 10 \<Longrightarrow> show_nat d = [digit_char d]"
  by (simp add: show_nat.simps)

lemma coords_div_mod:
  "squareIndexToCoordinates r (Num i) = (Num (i mod r + 1), Num (i div r + 1))"
  by (simp add: Let_def minus_div_mult_eq_mod)

lemma key_of_col_row:
  assumes "c < 8" and "q < 9"
  shows "keyToSquareIndex r [''abcdefgh'' ! c, digit_char (q + 1)] = Num (int q * r + int c)"
  using assms
  by (simp add: keyToSquareIndex_def char_at_def x_of_firstChar_col digit_of_digit_char)

lemma index_to_key_col_row:
  assumes "0 < r" and "c < 8" and "int c < r" and "q < 9"
  shows "squareIndexToKey r (Num (int q * r + int c)) = [''abcdefgh'' ! c, digit_char (q + 1)]"
proof -
  have m: "(int q * r + int c) mod r = int c" using assms by simp
  have d: "(int q * r + int c) div r = int q" using assms by simp
  have s: "show_int (int q + 1) = [digit_char (q + 1)]"
    using assms show_nat_digit [of "q + 1"] by (simp add: show_int_def nat_add_distrib)
  show ?thesis
    unfolding squareIndexToKey_def coords_div_mod m d
    using assms s by (simp add: file_of_x_col)
qed

lemma index_roundtrip:
  assumes "0 < r" and "r \<le> 8" and "0 \<le> i" and "i < 9 * r"
  shows "keyToSquareIndex r (squareIndexToKey r (Num i)) = Num i"
proof -
  define c where "c = nat (i mod r)"
  define q where "q = nat (i div r)"
  have c: "int c = i mod r" using assms by (simp add: c_def)
  have q: "int q = i div r" using assms by (simp add: q_def pos_imp_zdiv_nonneg_iff)
  have "i mod r < r" using assms by simp
  then have c8: "c < 8" "int c < r" using assms c by linarith+
  have "i div r < 9"
  proof (rule ccontr)
    assume "\<not> i div r < 9"
    then have "9 * r \<le> i div r * r" using assms by (simp add: mult_right_mono)
    moreover have "i div r * r + i mod r = i" by simp
    moreover have "0 \<le> i mod r" using assms by simp
    ultimately show False using assms by linarith
  qed
  then have q9: "q < 9" using q by linarith
  have i: "i = int q * r + int c" by (simp add: c q)
  show ?thesis
    by (subst i, subst i)
      (simp only: index_to_key_col_row [OF assms(1) c8 q9] key_of_col_row [OF c8(1) q9])
qed

lemma specKey_small:
  "col < 8 \<Longrightarrow> row < 9 \<Longrightarrow> specKey col row = [''abcdefgh'' ! col, digit_char (row + 1)]"
  using lt8_cases [of col] by (auto simp: specKey_def show_nat_digit)

lemma key_roundtrip:
  assumes "0 < r" and "r \<le> 8" and "int col < r" and "row < 9"
  shows "squareIndexToKey r (keyToSquareIndex r (specKey col row)) = specKey col row"
proof -
  have c8: "col < 8" using assms by linarith
  show ?thesis
    by (simp only: specKey_small [OF c8 assms(4)] key_of_col_row [OF c8 assms(4)]
        index_to_key_col_row [OF assms(1) c8 assms(3) assms(4)])
qed

text \<open>
  C3 (as amended). The file letters are the eight cases \<open>a\<close> to \<open>h\<close> of the two
  \<^verbatim>\<open>switch\<close> statements and the rank is read back from one character, so the two
  functions are mutual inverses on every board of at most eight columns and nine
  ranks: for a row width \<open>r\<close> from 1 to 8 and \<open>n \<le> 9 * r\<close> squares, every index
  \<open>0 \<le> i < n\<close> is returned by \<^verbatim>\<open>keyToSquareIndex(squareIndexToKey(i))\<close>, and every key of a
  square of the board (column \<open>col < r\<close>, rank \<open>row + 1\<close>, index \<open>row * r + col < n\<close>) is
  returned by \<^verbatim>\<open>squareIndexToKey(keyToSquareIndex(key))\<close>. The 8\<times>8 board is one of them.
\<close>

theorem C3_coordinate_bijection_up_to_8_files:
  assumes "0 < r" and "r \<le> 8" and "n \<le> 9 * r"
  shows "(\<forall>i. 0 \<le> i \<and> i < n \<longrightarrow> keyToSquareIndex r (squareIndexToKey r (Num i)) = Num i) \<and>
         (\<forall>col row. int col < r \<and> int row * r + int col < n \<longrightarrow>
            squareIndexToKey r (keyToSquareIndex r (specKey col row)) = specKey col row)"
proof (intro conjI allI impI)
  fix i assume "0 \<le> i \<and> i < n"
  then show "keyToSquareIndex r (squareIndexToKey r (Num i)) = Num i"
    using assms by (intro index_roundtrip) auto
next
  fix col row assume h: "int col < r \<and> int row * r + int col < n"
  have "row < 9"
  proof (rule ccontr)
    assume "\<not> row < 9"
    then have "9 * r \<le> int row * r" using assms by (simp add: mult_right_mono)
    then show False using h assms by linarith
  qed
  then show "squareIndexToKey r (keyToSquareIndex r (specKey col row)) = specKey col row"
    using assms h by (intro key_roundtrip) auto
qed

theorem C3_witness_8x8:
  "(0::int) < 8 \<and> (8::int) \<le> 8 \<and> (64::int) \<le> 9 * 8 \<and>
   keyToSquareIndex 8 (squareIndexToKey 8 (Num 12)) = Num 12 \<and>
   squareIndexToKey 8 (keyToSquareIndex 8 (specKey 4 1)) = specKey 4 1 \<and>
   specKey 4 1 = ''e2''"
proof -
  have a: "(0::int) < 8" and b: "(8::int) \<le> 8" and c: "(64::int) \<le> 9 * 8" by simp_all
  have k: "specKey 4 1 = ''e2''" by (simp add: specKey_def show_nat.simps digit_char_def)
  from C3_coordinate_bijection_up_to_8_files [OF a b c]
  have "keyToSquareIndex 8 (squareIndexToKey 8 (Num 12)) = Num 12"
    and "squareIndexToKey 8 (keyToSquareIndex 8 (specKey 4 1)) = specKey 4 1"
    by simp_all
  then show ?thesis using k by simp
qed

text \<open>
  C3 as stated fails for a board wider than eight columns: with a row width of 9,
  index 8 is a valid index (column nine of the first rank), its key is \<open>''1''\<close> (no file
  letter), and that key maps to \<^verbatim>\<open>NaN\<close>, not back to 8.
\<close>

theorem C3_counterexample_9_columns:
  "squareIndexToKey 9 (Num 8) = ''1'' \<and> keyToSquareIndex 9 (squareIndexToKey 9 (Num 8)) \<noteq> Num 8"
  by (simp add: squareIndexToKey_def keyToSquareIndex_def show_int_def show_nat.simps
      digit_char_def char_at_def x_of_firstChar_def digit_of_def)




section \<open>Moves\<close>

lemma move_object_result: "fst (move E W (Inr m) emitEvent this) = True"
  by (simp add: move_def Let_def)

lemma game_emit [simp]: "game (emit e this) = game this"
  by (simp add: emit_def)

lemma game_emitEvents [simp]: "game (emitEvents E this) = game this"
  by (simp add: emitEvents_def)

lemma game_updateGameState [simp]: "game (updateGameState E W u this) = game this"
  by (simp add: updateGameState_def Let_def)

lemma game_forbidMoves [simp]: "game (forbidMoves this) = game this"
  by (simp add: forbidMoves_def)

lemma game_after_move:
  "game (snd (move E W (Inr m) emitEvent this)) =
     makeAction E (game this) (keyToSquareIndex (NUM_ROWS E) (orig m))
       (keyToSquareIndex (NUM_ROWS E) (dest m))"
  by (simp add: move_def Let_def)

lemma viewer_emit [simp]: "historyViewerState (emit e this) = historyViewerState this"
  by (simp add: emit_def)

lemma viewer_emitEvents [simp]:
  "historyViewerState (emitEvents E this) = historyViewerState this"
  by (simp add: emitEvents_def)

lemma viewer_updateGameState [simp]:
  "historyViewerState (updateGameState E W u this) = historyViewerState this"
  by (simp add: updateGameState_def Let_def)

lemma viewer_after_move:
  "historyViewerState (snd (move E W m emitEvent this)) = historyViewerState this"
  by (cases m) (simp_all add: move_def Let_def forbidMoves_def)

lemma movable_color_after_move:
  assumes "isGameOver E (makeAction E (game this) (keyToSquareIndex (NUM_ROWS E) (orig m))
       (keyToSquareIndex (NUM_ROWS E) (dest m)))"
  shows "movable_color (board (snd (move E W (Inr m) emitEvent this))) = None"
  using assms by (simp add: move_def Let_def forbidMoves_def)

lemma emitted_emitEvents:
  "emitted (emitEvents E this) = emitted this @
     (if isGameOver E (game this)
      then (if draw E (game this) then [EmitDraw] else [EmitCheckmate (turnColor (board this))])
      else [])"
  by (simp add: emitEvents_def emit_def)

lemma emitted_updateGameState:
  "emitted (updateGameState E W u this) = emitted this @
     (if isGameOver E (game this)
      then (if draw E (game this) then [EmitDraw]
            else [EmitCheckmate (if isEnabled (historyViewerState this) then turnColor (board this)
                                 else getTurnColor E this)])
      else [])"
  by (simp add: updateGameState_def emitted_emitEvents Let_def getTurnColor_def)

lemma emitted_after_move:
  "\<not> isGameOver E (makeAction E (game this) (keyToSquareIndex (NUM_ROWS E) (orig m))
       (keyToSquareIndex (NUM_ROWS E) (dest m))) \<Longrightarrow>
   emitted (snd (move E W (Inr m) True this)) = emitted this @ [EmitMove m]"
  by (simp add: move_def Let_def emitted_updateGameState emit_def)

lemma demo_keys:
  "keyToSquareIndex 8 ''e2'' = Num 12" "keyToSquareIndex 8 ''e4'' = Num 28"
  "keyToSquareIndex 8 ''e5'' = Num 36" "keyToSquareIndex 8 ''e7'' = Num 52"
  "keyToSquareIndex 8 ''g1'' = Num 6" "keyToSquareIndex 8 ''f3'' = Num 21"
  "keyToSquareIndex 8 ''a7'' = Num 48" "keyToSquareIndex 8 ''a6'' = Num 40"
  by (simp_all add: keyToSquareIndex_def char_at_def x_of_firstChar_def digit_of_def)

lemma demo_legal_e2: 
  "legalActionsBySquare (demoEngine n) (game demoStart) (Num 12) =
     [\<lparr>srcIdx = 12, dstIdx = 20\<rparr>, \<lparr>srcIdx = 12, dstIdx = 28\<rparr>]"
  by (simp add: demoEngine_def demoStart_def openingActions_def possibleMovesWhite_def
      keyToSquareIndex_def char_at_def x_of_firstChar_def digit_of_def)

text \<open>
  C1: \<^verbatim>\<open>move\<close> does not ask whether the move is legal. In the start position the
  destination \<open>e5\<close> is not among the legal actions of \<open>e2\<close> (\<^verbatim>\<open>isMoveLegal\<close> is false), and
  \<^verbatim>\<open>move({from: 'e2', to: 'e5'})\<close> still returns \<^verbatim>\<open>true\<close>, hands the action to the rules
  engine and emits the move event.
\<close>

theorem C1_illegal_move_is_applied:
  "isMoveLegal (demoEngine 3) (mv ''e2'' ''e5'') demoStart = False \<and>
   fst (move (demoEngine 3) demoBoard (Inr (mv ''e2'' ''e5'')) True demoStart) = True \<and>
   game (snd (move (demoEngine 3) demoBoard (Inr (mv ''e2'' ''e5'')) True demoStart))
     = \<lparr>applied = [(Num 12, Num 36)]\<rparr> \<and>
   emitted (snd (move (demoEngine 3) demoBoard (Inr (mv ''e2'' ''e5'')) True demoStart))
     = [EmitMove (mv ''e2'' ''e5'')]"
proof -
  have r: "NUM_ROWS (demoEngine 3) = 8" by (simp add: demoEngine_def)
  have 1: "isMoveLegal (demoEngine 3) (mv ''e2'' ''e5'') demoStart = False"
    by (simp add: isMoveLegal_def r mv_def demo_keys demo_legal_e2)
  have 2: "game (snd (move (demoEngine 3) demoBoard (Inr (mv ''e2'' ''e5'')) True demoStart))
     = \<lparr>applied = [(Num 12, Num 36)]\<rparr>"
    unfolding game_after_move r by (simp add: mv_def demo_keys) (simp add: demoEngine_def demoStart_def)
  have 3: "emitted (snd (move (demoEngine 3) demoBoard (Inr (mv ''e2'' ''e5'')) True demoStart))
     = [EmitMove (mv ''e2'' ''e5'')]"
    by (subst emitted_after_move) (simp_all add: r mv_def demo_keys, simp_all add: demoEngine_def demoStart_def)
  show ?thesis using 1 2 3 by (simp add: move_object_result)
qed

text \<open>
  When the action of a move ends the game, \<^verbatim>\<open>move\<close> calls \<^verbatim>\<open>forbidMoves\<close>: it leaves
  \<^verbatim>\<open>movable.color\<close> of the visual board undefined, which forbids further moves through
  the board's own input.
\<close>

lemma game_over_forbids_board_input:
  assumes "isGameOver E (makeAction E (game this) (keyToSquareIndex (NUM_ROWS E) (orig m))
       (keyToSquareIndex (NUM_ROWS E) (dest m)))"
  shows "movable_color (board (snd (move E W (Inr m) emitEvent this))) = None"
  using assms by (simp only: movable_color_after_move simp_thms)

text \<open>
  C5: \<^verbatim>\<open>forbidMoves\<close> only closes the board's own input. In the stand-in game that is over
  after one action, \<open>e2\<close> to \<open>e4\<close> ends the game and \<^verbatim>\<open>movable.color\<close> becomes undefined;
  the next call \<^verbatim>\<open>move({from: 'a7', to: 'a6'})\<close> is not refused: it returns \<^verbatim>\<open>true\<close> and
  changes the state of the rules engine.
\<close>

theorem C5_move_after_game_over_is_applied:
  "isGameOver (demoEngine 1) (game (demoAfter 1 (mv ''e2'' ''e4''))) \<and>
   movable_color (board (demoAfter 1 (mv ''e2'' ''e4''))) = None \<and>
   fst (move (demoEngine 1) demoBoard (Inr (mv ''a7'' ''a6'')) True (demoAfter 1 (mv ''e2'' ''e4''))) = True \<and>
   game (demoAfter 1 (mv ''e2'' ''e4'')) = \<lparr>applied = [(Num 12, Num 28)]\<rparr> \<and>
   game (snd (move (demoEngine 1) demoBoard (Inr (mv ''a7'' ''a6'')) True (demoAfter 1 (mv ''e2'' ''e4''))))
     = \<lparr>applied = [(Num 12, Num 28), (Num 48, Num 40)]\<rparr>"
proof -
  have r: "NUM_ROWS (demoEngine 1) = 8" by (simp add: demoEngine_def)
  have g: "game (demoAfter 1 (mv ''e2'' ''e4'')) = \<lparr>applied = [(Num 12, Num 28)]\<rparr>"
    unfolding demoAfter_def game_after_move r
    by (simp add: mv_def demo_keys) (simp add: demoEngine_def demoStart_def)
  have g2: "game (snd (move (demoEngine 1) demoBoard (Inr (mv ''a7'' ''a6'')) True (demoAfter 1 (mv ''e2'' ''e4''))))
     = \<lparr>applied = [(Num 12, Num 28), (Num 48, Num 40)]\<rparr>"
    unfolding game_after_move r g
    by (simp add: mv_def demo_keys) (simp add: demoEngine_def)
  have o: "isGameOver (demoEngine 1) (game (demoAfter 1 (mv ''e2'' ''e4'')))"
    unfolding g by (simp add: demoEngine_def)
  have "isGameOver (demoEngine 1) (makeAction (demoEngine 1) (game demoStart)
      (keyToSquareIndex (NUM_ROWS (demoEngine 1)) (orig (mv ''e2'' ''e4'')))
      (keyToSquareIndex (NUM_ROWS (demoEngine 1)) (dest (mv ''e2'' ''e4''))))"
    by (simp add: demoEngine_def)
  then have c: "movable_color (board (demoAfter 1 (mv ''e2'' ''e4''))) = None"
    unfolding demoAfter_def by (rule game_over_forbids_board_input)
  show ?thesis using g g2 o c by (simp add: move_object_result)
qed

text \<open>
  The body of \<^verbatim>\<open>viewHistory\<close> is commented out behind \<^verbatim>\<open>// TODO return;\<close>: in every state
  \<^verbatim>\<open>viewHistory\<close> returns at once, and \<^verbatim>\<open>stopViewingHistory\<close>, which calls it at most,
  changes nothing either.
\<close>

lemma viewHistory_is_a_stub:
  "viewHistory ply this = this \<and> stopViewingHistory E this = this"
  by (simp add: viewHistory_def stopViewingHistory_def)

text \<open>
  C8: after three moves of the stand-in game, \<^verbatim>\<open>viewHistory(1)\<close> leaves the whole state
  as it was and the bridge live: it is not viewing ply 1, where the doc comment of
  \<^verbatim>\<open>viewHistory\<close> says that it views the position at the given ply. The move from \<open>a7\<close> to
  \<open>a6\<close> made after it reaches the rules engine, and \<^verbatim>\<open>stopViewingHistory()\<close> after that
  move does not bring back the position in which \<^verbatim>\<open>viewHistory(1)\<close> was called.
\<close>

theorem C8_viewHistory_does_not_view:
  "game demoThreeMoves = \<lparr>applied = [(Num 12, Num 28), (Num 52, Num 36), (Num 6, Num 21)]\<rparr> \<and>
   viewHistory 1 demoThreeMoves = demoThreeMoves \<and>
   historyViewerState (viewHistory 1 demoThreeMoves) = Live \<and>
   game (stopViewingHistory (demoEngine 9)
           (snd (move (demoEngine 9) demoBoard (Inr (mv ''a7'' ''a6'')) True
                  (viewHistory 1 demoThreeMoves))))
     = \<lparr>applied = [(Num 12, Num 28), (Num 52, Num 36), (Num 6, Num 21), (Num 48, Num 40)]\<rparr>"
proof -
  have r: "NUM_ROWS (demoEngine 9) = 8" by (simp add: demoEngine_def)
  have g: "game demoThreeMoves = \<lparr>applied = [(Num 12, Num 28), (Num 52, Num 36), (Num 6, Num 21)]\<rparr>"
    unfolding demoThreeMoves_def game_after_move r
    by (simp add: mv_def demo_keys) (simp add: demoEngine_def demoStart_def)
  have v: "historyViewerState demoThreeMoves = Live"
    unfolding demoThreeMoves_def viewer_after_move by (simp add: demoStart_def)
  have s: "viewHistory 1 demoThreeMoves = demoThreeMoves" by (simp add: viewHistory_def)
  have m: "game (snd (move (demoEngine 9) demoBoard (Inr (mv ''a7'' ''a6'')) True demoThreeMoves))
     = \<lparr>applied = [(Num 12, Num 28), (Num 52, Num 36), (Num 6, Num 21), (Num 48, Num 40)]\<rparr>"
    unfolding game_after_move r g
    by (simp add: mv_def demo_keys) (simp add: demoEngine_def)
  have t: "stopViewingHistory (demoEngine 9) x = x" for x :: "(demoGame, hook option) BoardApi"
    by (simp add: viewHistory_def stopViewingHistory_def)
  show ?thesis unfolding s t using g v m by simp
qed

text \<open>
  C9: \<^verbatim>\<open>undoLastMove\<close>, \<^verbatim>\<open>loadPgn\<close>, \<^verbatim>\<open>getHistory\<close>, \<^verbatim>\<open>getLastMove\<close>, \<^verbatim>\<open>getBoardPosition\<close> and
  \<^verbatim>\<open>getPgnInfo\<close> change nothing in any state, and those that return a value return the
  empty list, \<^verbatim>\<open>undefined\<close> or the empty record.
\<close>

theorem C9_stubs_change_nothing:
  "undoLastMove this = this \<and> loadPgn pgn this = this \<and>
   getHistory verbose this = ([], this) \<and> getLastMove this = (None, this) \<and>
   getBoardPosition this = ([], this) \<and> getPgnInfo this = ([], this)"
  by (simp add: undoLastMove_def loadPgn_def getHistory_def getLastMove_def
      getBoardPosition_def getPgnInfo_def)

text \<open>
  C10: \<^verbatim>\<open>move\<close> called with a string returns \<^verbatim>\<open>false\<close> and leaves the whole state (rules
  engine, visual board, viewer state, emitted events, scheduled tasks) as it was.
\<close>

theorem C10_string_move_is_refused: "move E W (Inl san) emitEvent this = (False, this)"
  by (simp add: move_def)

section \<open>Configurations\<close>

text \<open>
  C2: \<^verbatim>\<open>setConfig\<close> with \<^verbatim>\<open>fillDefaults\<close> false patches the object it is given. Called
  twice with the same object \<^verbatim>\<open>{movable: {events: {after: f}}}\<close>, the second call finds
  the wrapper of the first call in the slot and wraps it again: the function handed
  to the board, which is also the function left in the caller's slot, runs
  \<^verbatim>\<open>changeTurn\<close> twice when the board calls it, and a move from \<open>e2\<close> to \<open>e4\<close> reaches the
  rules engine twice.
\<close>

theorem C2_second_setConfig_wraps_the_wrapper:
  "afterInstalled (setConfigTwice False) = Some (Patched (Patched (UserFn 1))) \<and>
   afterOfCaller (setConfigTwice False) = Some (Patched (Patched (UserFn 1))) \<and>
   changeTurnCalls (Patched (Patched (UserFn 1))) = 2 \<and>
   game (runAfter (demoEngine 9) demoBoard (Patched (Patched (UserFn 1))) ''e2'' ''e4'' demoStart)
     = \<lparr>applied = [(Num 12, Num 28), (Num 12, Num 28)]\<rparr>"
proof -
  have 1: "afterInstalled (setConfigTwice False) = Some (Patched (Patched (UserFn 1)))"
    by code_simp
  have 2: "afterOfCaller (setConfigTwice False) = Some (Patched (Patched (UserFn 1)))"
    by code_simp
  have r: "NUM_ROWS (demoEngine 9) = 8" by (simp add: demoEngine_def)
  have 3: "game (runAfter (demoEngine 9) demoBoard (Patched (Patched (UserFn 1))) ''e2'' ''e4'' demoStart)
     = \<lparr>applied = [(Num 12, Num 28), (Num 12, Num 28)]\<rparr>"
    by (simp add: changeTurn_def game_after_move r demo_keys) (simp add: demoEngine_def demoStart_def)
  show ?thesis using 1 2 3 by simp
qed

text \<open>
  C6: \<^verbatim>\<open>isObject\<close> holds of a \<^verbatim>\<open>Map\<close>, and a \<^verbatim>\<open>Map\<close> has no enumerable property. For the
  configurations \<^verbatim>\<open>{viewOnly: false, movable: {dests: M1}}\<close> and
  \<^verbatim>\<open>{viewOnly: true, movable: {dests: M2}}\<close>, \<^verbatim>\<open>deepDiffConfig\<close> returns \<^verbatim>\<open>{viewOnly: true}\<close>: the
  change of \<^verbatim>\<open>movable.dests\<close> is not in the difference. Merged onto the old
  configuration it gives \<^verbatim>\<open>viewOnly\<close> true and, at \<^verbatim>\<open>movable.dests\<close>, an empty plain object,
  where the new configuration has the \<^verbatim>\<open>Map\<close> \<open>M2\<close>.
\<close>

theorem C6_diff_and_merge_lose_a_Map:
  "cellAtPath diffOfTwo [] = Some (Plain [(''viewOnly'', Boolean True)]) \<and>
   valueAtPath mergeOfDiff [''viewOnly''] = Some (Boolean True) \<and>
   cellAtPath mergeOfDiff [''movable'', ''dests''] = Some (Plain []) \<and>
   cellAtPath (Some (fst (snd twoConfigs), snd (snd twoConfigs))) [''movable'', ''dests'']
     = Some (MapObj [(''e7'', [''e6'', ''e5''])])"
  by code_simp

text \<open>
  C7: \<^verbatim>\<open>deepCopy\<close> rebuilds a \<^verbatim>\<open>Map\<close> from its enumerable properties, of which it has
  none. In \<^verbatim>\<open>defaultBoardConfig\<close> the field \<^verbatim>\<open>movable.dests\<close> is the \<^verbatim>\<open>Map\<close>
  \<^verbatim>\<open>possibleMovesWhite\<close>; in \<^verbatim>\<open>deepMergeConfig(defaultBoardConfig, {})\<close> it is an empty plain
  object, so the result is not structurally equal to \<^verbatim>\<open>defaultBoardConfig\<close>.
\<close>

theorem C7_merge_with_empty_loses_dests:
  "cellAtPath (Some (defaultBoardConfig, moduleHeap)) [''movable'', ''dests'']
     = Some (MapObj possibleMovesWhite) \<and>
   cellAtPath mergeDefaultWithEmpty [''movable'', ''dests''] = Some (Plain [])"
  by code_simp


text \<open>
  With \<^verbatim>\<open>fillDefaults\<close> true \<^verbatim>\<open>setConfig\<close> patches the object that \<^verbatim>\<open>deepMergeConfig\<close> returned.
  Called twice with the same object \<^verbatim>\<open>{movable: {events: {after: f}}}\<close>, it hands the
  board the wrapper of \<open>f\<close>, and the slot of the caller's object still holds \<open>f\<close>.
\<close>

lemma setConfig_with_defaults_twice:
  "(case setConfigTwice True of
      Inr (h, this) \<Rightarrow>
        Some (widget (board this), hook_of h (getPath h callerConfig [''movable'', ''events'', ''after'']))
    | Inl e \<Rightarrow> None) = Some (Some (Patched (UserFn 1)), UserFn 1)"
  by code_simp
section \<open>\<^verbatim>\<open>deepCopy\<close>, \<^verbatim>\<open>deepMergeConfig\<close> and \<^verbatim>\<open>deepDiffConfig\<close> on trees of plain objects\<close>

subsection \<open>The store grows: what is unchanged by new cells\<close>

lemma cell_at_lt: "cell_at h a = Some c \<Longrightarrow> a < length h"
  by (simp add: cell_at_def split: if_splits)

lemma cell_at_valid: "a < length h \<Longrightarrow> cell_at h a = Some (h ! a)"
  by (simp add: cell_at_def)

lemma cell_at_ext [simp]: "a < length h \<Longrightarrow> cell_at (h @ ext) a = cell_at h a"
  by (simp add: cell_at_def nth_append)

lemma cell_at_new [simp]: "cell_at (h @ c # ext) (length h) = Some c"
  by (simp add: cell_at_def)

lemma agreeOn_subset: "agreeOn A h h2 \<Longrightarrow> B \<subseteq> A \<Longrightarrow> agreeOn B h h2"
  by (auto simp: agreeOn_def)

lemma agree_valid: "valid h v \<Longrightarrow> agreeOn (addrs v) h h2 \<Longrightarrow> valid h2 v"
  by (cases v) (auto simp: valid_def agreeOn_def cell_at_def split: if_splits)

lemma agree_isObject: "agreeOn (addrs v) h h2 \<Longrightarrow> isObject h2 v = isObject h v"
  by (cases v) (auto simp: agreeOn_def)

lemma agree_entries: "agreeOn (addrs v) h h2 \<Longrightarrow> entries h2 v = entries h v"
  by (cases v) (auto simp: agreeOn_def)

lemma agree_cellOf: "agreeOn (addrs v) h h2 \<Longrightarrow> cellOf h2 v = cellOf h v"
  by (cases v) (auto simp: agreeOn_def cellOf_def)

lemma agree_get: "agreeOn (addrs v) h h2 \<Longrightarrow> get h2 v k = get h v k"
  by (simp add: get_def agree_entries)

lemma refs_addrs: "addrs v \<subseteq> refs n h v"
  by (cases n) auto

lemma refs_child:
  "isObject h v \<Longrightarrow> x \<in> set (map snd (entries h v)) \<Longrightarrow> refs n h x \<subseteq> refs (Suc n) h v"
  by auto

lemma frame:
  "wfTree n h v \<Longrightarrow> agreeOn (refs n h v) h h2 \<Longrightarrow>
     wfTree n h2 v \<and> shapeOf n h2 v = shapeOf n h v \<and> refs n h2 v = refs n h v \<and>
     fresh n b h2 v = fresh n b h v"
proof (induction n arbitrary: v)
  case 0
  then show ?case
    using agree_valid [of h v h2] agree_isObject [of v h h2] by simp
next
  case (Suc n)
  have ag: "agreeOn (addrs v) h h2"
    using Suc.prems(2) refs_addrs [of v "Suc n" h] by (rule agreeOn_subset)
  note io = agree_isObject [OF ag] and en = agree_entries [OF ag] and co = agree_cellOf [OF ag]
  have va: "valid h2 v" using Suc.prems(1) ag by (auto intro: agree_valid)
  show ?case
  proof (cases "isObject h v")
    case False
    then show ?thesis using va io by simp
  next
    case True
    have ch: "wfTree n h2 x \<and> shapeOf n h2 x = shapeOf n h x \<and> refs n h2 x = refs n h x \<and>
              fresh n b h2 x = fresh n b h x"
      if "(k, x) \<in> set (entries h v)" for k x
    proof -
      have m: "x \<in> set (map snd (entries h v))" using that by force
      have "wfTree n h x" using Suc.prems(1) True m by (auto simp: list_all_iff)
      moreover have "agreeOn (refs n h x) h h2"
        using Suc.prems(2) refs_child [OF True m] by (rule agreeOn_subset)
      ultimately show ?thesis by (rule Suc.IH)
    qed
    have 1: "list_all (wfTree n h2) (map snd (entries h v))"
      using ch by (auto simp: list_all_iff)
    have 2: "map (\<lambda>(k, x). (k, shapeOf n h2 x)) (entries h v) = map (\<lambda>(k, x). (k, shapeOf n h x)) (entries h v)"
      using ch by auto
    have 3: "map (refs n h2) (map snd (entries h v)) = map (refs n h) (map snd (entries h v))"
      using ch by auto
    have 4: "list_all (fresh n b h2) (map snd (entries h v)) = list_all (fresh n b h) (map snd (entries h v))"
      using ch by (auto simp: list_all_iff)
    show ?thesis
      using Suc.prems(1) True va io en co 1 2 3 4 by (simp del: map_map)
  qed
qed

lemma wf_refs_valid: "wfTree n h v \<Longrightarrow> a \<in> refs n h v \<Longrightarrow> a < length h"
proof (induction n arbitrary: v)
  case 0
  then show ?case by (cases v) (auto simp: valid_def)
next
  case (Suc n)
  show ?case
  proof (cases "a \<in> addrs v")
    case True
    then show ?thesis using Suc.prems(1) by (cases v) (auto simp: valid_def)
  next
    case False
    then obtain x where "isObject h v" "x \<in> set (map snd (entries h v))" "a \<in> refs n h x"
      using Suc.prems(2) by (auto split: if_splits)
    moreover from this have "wfTree n h x" using Suc.prems(1) by (auto simp: list_all_iff)
    ultimately show ?thesis using Suc.IH by blast
  qed
qed

lemma agreeOn_ext: "wfTree n h v \<Longrightarrow> agreeOn (refs n h v) h (h @ ext)"
  by (auto simp: agreeOn_def dest: wf_refs_valid)

lemmas ext_frame = frame [OF _ agreeOn_ext]

lemma wfTree_ext: "wfTree n h v \<Longrightarrow> wfTree n (h @ ext) v"
  using ext_frame by blast

lemma shapeOf_ext: "wfTree n h v \<Longrightarrow> shapeOf n (h @ ext) v = shapeOf n h v"
  using ext_frame by blast

lemma refs_ext: "wfTree n h v \<Longrightarrow> refs n (h @ ext) v = refs n h v"
  using ext_frame by blast

lemma fresh_ext: "wfTree n h v \<Longrightarrow> fresh n b (h @ ext) v = fresh n b h v"
  using ext_frame by blast

subsection \<open>\<^verbatim>\<open>deepCopy\<close> returns a new tree of the same shape\<close>

lemma fresh_bound: "fresh n b h v \<Longrightarrow> b' \<le> b \<Longrightarrow> fresh n b' h v"
proof (induction n arbitrary: v)
  case 0
  then show ?case by simp
next
  case (Suc n)
  show ?case
  proof (cases "isObject h v")
    case False
    then show ?thesis by simp
  next
    case True
    then obtain a where a: "v = Ref a" by (cases v) auto
    have "list_all (fresh n b' h) (map snd (entries h v))"
      using Suc.prems True Suc.IH by (auto simp: list_all_iff)
    then show ?thesis using Suc.prems True a by simp
  qed
qed

lemma built_ext:
  assumes "built n b h' v R" and "b' \<le> b" and "R \<subseteq> R'"
  shows "built n b' (h' @ ext) v R'"
proof -
  have w: "wfTree n h' v" and f: "fresh n b h' v" and r: "refs n h' v \<subseteq> R \<union> {b..<length h'}"
    using assms(1) by (simp_all add: built_def)
  have "fresh n b' h' v" using f assms(2) by (rule fresh_bound)
  then have "fresh n b' (h' @ ext) v" using fresh_ext [OF w] by simp
  moreover have "refs n (h' @ ext) v \<subseteq> R' \<union> {b'..<length (h' @ ext)}"
    using r refs_ext [OF w] assms(2,3) by auto
  ultimately show ?thesis using wfTree_ext [OF w] by (simp add: built_def)
qed

text \<open>The map over \<^verbatim>\<open>Object.entries\<close>: each value is copied in the store the previous copy left.\<close>

lemma copyEntries_spec:
  assumes f: "copies n f"
  shows "list_all (wfTree n h) (map snd es) \<Longrightarrow>
     \<exists>es' ext. copyEntries f es h = Some (es', h @ ext) \<and> map fst es' = map fst es \<and>
        list_all (\<lambda>x'. built n (length h) (h @ ext) x' (\<Union> (set (map (refs n h) (map snd es))))) (map snd es') \<and>
        map (shapeOf n (h @ ext)) (map snd es') = map (shapeOf n h) (map snd es)"
proof (induction es arbitrary: h)
  case Nil
  then show ?case by simp
next
  case (Cons e es)
  obtain k x where e: "e = (k, x)" by (cases e)
  let ?R = "\<Union> (set (map (refs n h) (map snd (e # es))))"
  have wx: "wfTree n h x" and wes: "list_all (wfTree n h) (map snd es)"
    using Cons.prems e by simp_all
  from f wx obtain x' ext1 where
    fx: "f x h = Some (x', h @ ext1)" and bx: "built n (length h) (h @ ext1) x' (refs n h x)" and
    sx: "shapeOf n (h @ ext1) x' = shapeOf n h x"
    unfolding copies_def by blast
  have wx': "wfTree n (h @ ext1) x'" using bx by (simp add: built_def)
  have wes1: "list_all (wfTree n (h @ ext1)) (map snd es)"
    using wes by (auto simp: list_all_iff intro: wfTree_ext)
  from Cons.IH [OF wes1] obtain es' ext2 where
    ce: "copyEntries f es (h @ ext1) = Some (es', (h @ ext1) @ ext2)" and
    ks: "map fst es' = map fst es" and
    bes: "list_all (\<lambda>x'. built n (length (h @ ext1)) ((h @ ext1) @ ext2) x'
            (\<Union> (set (map (refs n (h @ ext1)) (map snd es))))) (map snd es')" and
    ses: "map (shapeOf n ((h @ ext1) @ ext2)) (map snd es') = map (shapeOf n (h @ ext1)) (map snd es)"
    by blast
  have ses1: "map (shapeOf n (h @ ext1)) (map snd es) = map (shapeOf n h) (map snd es)"
    using wes by (auto simp: list_all_iff intro: shapeOf_ext)
  have refs1: "\<Union> (set (map (refs n (h @ ext1)) (map snd es))) \<subseteq> ?R"
    using wes by (auto simp: list_all_iff refs_ext)
  have 1: "copyEntries f (e # es) h = Some ((k, x') # es', h @ (ext1 @ ext2))"
    using e fx ce by simp
  have 2: "built n (length h) (h @ (ext1 @ ext2)) x' ?R"
    using built_ext [OF bx, of "length h" ?R ext2] e by simp
  have 3: "shapeOf n (h @ (ext1 @ ext2)) x' = shapeOf n h x"
    using shapeOf_ext [OF wx', of ext2] sx by simp
  have 4: "list_all (\<lambda>x'. built n (length h) (h @ (ext1 @ ext2)) x' ?R) (map snd es')"
  proof -
    have "built n (length h) (h @ (ext1 @ ext2)) y ?R"
      if "built n (length (h @ ext1)) ((h @ ext1) @ ext2) y (\<Union> (set (map (refs n (h @ ext1)) (map snd es))))" for y
      using built_ext [OF that, of "length h" ?R "[]"] refs1 by simp
    then show ?thesis using bes by (auto simp: list_all_iff)
  qed
  have 5: "map (shapeOf n (h @ (ext1 @ ext2))) (map snd es') = map (shapeOf n h) (map snd es)"
    using ses ses1 by simp
  show ?case
    apply (rule exI [of _ "(k, x') # es'"], rule exI [of _ "ext1 @ ext2"])
    using 1 2 3 4 5 ks e by simp
qed

lemma isObject_new [simp]: "isObject (h @ Plain ps # ext) (Ref (length h))"
  by simp

lemma entries_new [simp]: "entries (h @ Plain ps # ext) (Ref (length h)) = ps"
  by simp

lemma cellOf_new [simp]: "cellOf (h @ c # ext) (Ref (length h)) = Some c"
  by (simp add: cellOf_def)

text \<open>A new plain object over well-built properties is well-built.\<close>

lemma built_new_object:
  assumes ch: "list_all (\<lambda>x. built n b h' x R) (map snd ps)"
    and d: "distinct (map fst ps)"
    and c: "cell_at h' r = Some (Plain ps)" and r: "b \<le> r"
  shows "built (Suc n) b h' (Ref r) R"
proof -
  have rl: "r < length h'" using c by (rule cell_at_lt)
  have io: "isObject h' (Ref r)" and en: "entries h' (Ref r) = ps" using c by simp_all
  have "wfTree (Suc n) h' (Ref r)"
    using ch d c rl io en by (auto simp: built_def list_all_iff valid_def cellOf_def)
  moreover have "fresh (Suc n) b h' (Ref r)"
    using ch r io en by (auto simp: built_def list_all_iff)
  moreover have "refs (Suc n) h' (Ref r) \<subseteq> R \<union> {b..<length h'}"
    using ch r rl io en by (auto simp: built_def list_all_iff)
  ultimately show ?thesis unfolding built_def by blast
qed

lemma shape_pairs:
  "map fst es' = map fst es \<Longrightarrow> map f (map snd es') = map g (map snd es) \<Longrightarrow>
   map (\<lambda>(k, x). (k, f x)) es' = map (\<lambda>(k, x). (k, g x)) es"
proof (induction es arbitrary: es')
  case Nil
  then show ?case by simp
next
  case (Cons e es)
  then obtain e' es'' where "es' = e' # es''" by (cases es') auto
  with Cons show ?case by (cases e; cases e') auto
qed

lemma deepCopy_copies: "copies n (deepCopy n)"
proof (induction n)
  case 0
  show ?case by (auto simp: copies_def built_def intro!: exI [of _ "[]"])
next
  case (Suc n)
  show ?case
    unfolding copies_def
  proof (intro allI impI)
    fix v h assume w: "wfTree (Suc n) h v"
    show "\<exists>v' ext. deepCopy (Suc n) v h = Some (v', h @ ext) \<and>
        built (Suc n) (length h) (h @ ext) v' (refs (Suc n) h v) \<and>
        shapeOf (Suc n) (h @ ext) v' = shapeOf (Suc n) h v"
    proof (cases "isObject h v")
      case False
      have "refs (Suc n) h v \<subseteq> refs (Suc n) h v \<union> {length h..<length h}" by simp
      then show ?thesis using w False
        by (intro exI [of _ v] exI [of _ "[]"]) (simp add: built_def)
    next
      case True
      have wes: "list_all (wfTree n h) (map snd (entries h v))"
        and dk: "distinct (map fst (entries h v))" using w True by simp_all
      let ?R = "\<Union> (set (map (refs n h) (map snd (entries h v))))"
      from copyEntries_spec [OF Suc wes] obtain es' ext where
        ce: "copyEntries (deepCopy n) (entries h v) h = Some (es', h @ ext)" and
        ks: "map fst es' = map fst (entries h v)" and
        bes: "list_all (\<lambda>x'. built n (length h) (h @ ext) x' ?R) (map snd es')" and
        ses: "map (shapeOf n (h @ ext)) (map snd es') = map (shapeOf n h) (map snd (entries h v))"
        by blast
      let ?r = "length (h @ ext)"
      let ?h' = "h @ (ext @ [Plain es'])"
      have dc: "deepCopy (Suc n) v h = Some (Ref ?r, ?h')" using True ce by simp
      have c: "cell_at ?h' ?r = Some (Plain es')"
        using cell_at_new [of "h @ ext" "Plain es'" "[]"] by simp
      have R: "?R \<subseteq> refs (Suc n) h v" using True by auto
      have bes': "list_all (\<lambda>x'. built n (length h) ?h' x' (refs (Suc n) h v)) (map snd es')"
      proof -
        have "built n (length h) ?h' y (refs (Suc n) h v)" if "built n (length h) (h @ ext) y ?R" for y
          using built_ext [OF that, of "length h" "refs (Suc n) h v" "[Plain es']"] R by simp
        then show ?thesis using bes by (auto simp: list_all_iff)
      qed
      have b: "built (Suc n) (length h) ?h' (Ref ?r) (refs (Suc n) h v)"
        using bes' ks dk c by (intro built_new_object) simp_all
      have "map (shapeOf n ?h') (map snd es') = map (shapeOf n (h @ ext)) (map snd es')"
      proof (rule map_cong [OF refl])
        fix x assume "x \<in> set (map snd es')"
        then have "wfTree n (h @ ext) x" using bes by (auto simp: list_all_iff built_def)
        from shapeOf_ext [OF this, of "[Plain es']"]
        show "shapeOf n ?h' x = shapeOf n (h @ ext) x" by simp
      qed
      then have ses': "map (shapeOf n ?h') (map snd es') = map (shapeOf n h) (map snd (entries h v))"
        by (simp only: ses)
      have sh: "shapeOf (Suc n) ?h' (Ref ?r) = shapeOf (Suc n) h v"
        using shape_pairs [OF ks ses'] c True by simp
      show ?thesis
        apply (rule exI [of _ "Ref ?r"], rule exI [of _ "ext @ [Plain es']"])
        using dc b sh by simp
    qed
  qed
qed

subsection \<open>Shapes of properties, spreading and assignment\<close>

lemma entries_nonobject: "\<not> isObject h v \<Longrightarrow> entries h v = []"
  by (cases v) (auto split: option.splits cell.splits)

lemma fields_shapeOf:
  "fieldsOf (shapeOf (Suc n) h v) = map (\<lambda>(k, x). (k, shapeOf n h x)) (entries h v)"
  by (simp add: entries_nonobject)

lemma isNode_shapeOf: "wfTree n h v \<Longrightarrow> isNode (shapeOf n h v) = isObject h v"
  by (cases n) simp_all

lemma shapeOf_Undefined [simp]: "shapeOf n h Undefined = Leaf Undefined"
  by (cases n) simp_all

lemma field_get: "fieldOf (shapeOf (Suc n) h v) k = shapeOf n h (get h v k)"
proof -
  have "map_of (map (\<lambda>(k, x). (k, shapeOf n h x)) (entries h v)) k
        = map_option (shapeOf n h) (map_of (entries h v) k)"
    by (induction "entries h v") (auto simp: map_of_map)
  then show ?thesis
    unfolding fieldOf_def fields_shapeOf get_def by (simp split: option.splits)
qed

lemma map_set_keys: "fst ` set (map_set k v m) = insert k (fst ` set m)"
  by (induction m) (auto split: if_splits simp: rev_image_eqI)

lemma map_set_distinct: "distinct (map fst m) \<Longrightarrow> distinct (map fst (map_set k v m))"
  by (induction m) (auto simp: map_set_keys)

lemma map_set_values: "snd ` set (map_set k v m) \<subseteq> insert v (snd ` set m)"
proof (induction m)
  case Nil
  then show ?case by simp
next
  case (Cons e m)
  obtain a b where e: "e = (a, b)" by (cases e)
  show ?case
  proof (cases "k = a")
    case True
    then show ?thesis using e by auto
  next
    case False
    have "snd ` set (map_set k v (e # m)) = insert b (snd ` set (map_set k v m))"
      using False e by simp
    then show ?thesis using Cons.IH e by auto
  qed
qed

lemma map_set_map:
  "map (\<lambda>(k, x). (k, g x)) (map_set k v m) = map_set k (g v) (map (\<lambda>(k, x). (k, g x)) m)"
  by (induction m) auto

lemma fold_set_distinct:
  "distinct (map fst props) \<Longrightarrow> distinct (map fst (foldl (\<lambda>acc (k, x). map_set k x acc) props es))"
  by (induction es arbitrary: props) (auto simp: map_set_distinct)

lemma fold_set_values:
  "snd ` set (foldl (\<lambda>acc (k, x). map_set k x acc) props es) \<subseteq> snd ` set props \<union> snd ` set es"
proof (induction es arbitrary: props)
  case Nil
  then show ?case by simp
next
  case (Cons e es)
  obtain k x where e: "e = (k, x)" by (cases e)
  have "snd ` set (foldl (\<lambda>acc (k, x). map_set k x acc) (map_set k x props) es)
        \<subseteq> snd ` set (map_set k x props) \<union> snd ` set es" by (rule Cons.IH)
  also have "\<dots> \<subseteq> insert x (snd ` set props) \<union> snd ` set es"
    using map_set_values [of k x props] by auto
  finally show ?case using e by auto
qed

lemma fold_set_map:
  "map (\<lambda>(k, x). (k, g x)) (foldl (\<lambda>acc (k, x). map_set k x acc) props es)
   = foldl (\<lambda>acc (k, x). map_set k x acc) (map (\<lambda>(k, x). (k, g x)) props) (map (\<lambda>(k, x). (k, g x)) es)"
  by (induction es arbitrary: props) (auto simp: map_set_map)

lemma spread_distinct: "distinct (map fst props) \<Longrightarrow> distinct (map fst (spread h v props))"
  unfolding spread_def by (rule fold_set_distinct)

lemma spread_values: "snd ` set (spread h v props) \<subseteq> snd ` set props \<union> snd ` set (entries h v)"
  unfolding spread_def by (rule fold_set_values)

lemma spread_shape:
  "map (\<lambda>(k, x). (k, shapeOf n h x)) (spread h v props)
   = spreadS (fieldsOf (shapeOf (Suc n) h v)) (map (\<lambda>(k, x). (k, shapeOf n h x)) props)"
  unfolding spread_def spreadS_def fields_shapeOf by (rule fold_set_map)

lemma map_set_at:
  "k \<notin> fst ` set done \<Longrightarrow> map_set k v (done @ (k, x) # todo) = done @ (k, v) # todo"
  by (induction "done") auto

lemma map_of_at:
  "k \<notin> fst ` set done \<Longrightarrow> map_of (done @ (k, x) # todo) k = Some x"
  by (induction "done") auto

lemma set_prop_new:
  "set_prop (h @ Plain ps # ext) (length h) k v = h @ Plain (map_set k v ps) # ext"
  by (simp add: set_prop_def list_update_append)

subsection \<open>The loop of \<^verbatim>\<open>deepMergeConfig\<close>\<close>

text \<open>The store after a step of the loop: the result object changes, the rest grows.\<close>

lemma stable:
  assumes w: "wfTree n (h @ c # Y) v" and r: "length h \<notin> refs n (h @ c # Y) v"
  shows "wfTree n (h @ c' # Y @ Z) v \<and> shapeOf n (h @ c' # Y @ Z) v = shapeOf n (h @ c # Y) v \<and>
         refs n (h @ c' # Y @ Z) v = refs n (h @ c # Y) v \<and>
         fresh n b (h @ c' # Y @ Z) v = fresh n b (h @ c # Y) v"
proof (rule frame [OF w])
  show "agreeOn (refs n (h @ c # Y) v) (h @ c # Y) (h @ c' # Y @ Z)"
    unfolding agreeOn_def
  proof
    fix a assume a: "a \<in> refs n (h @ c # Y) v"
    then have "a \<noteq> length h" using r by auto
    moreover have "a < length (h @ c # Y)" using w a by (rule wf_refs_valid)
    ultimately show "cell_at (h @ c' # Y @ Z) a = cell_at (h @ c # Y) a"
      by (auto simp: cell_at_def nth_append nth_Cons split: nat.splits)
  qed
qed

lemma built_stable:
  assumes b: "built n b (h @ c # Y) v R" and r: "length h \<notin> R" and l: "length h < b"
  shows "built n b (h @ c' # Y @ Z) v R \<and>
         shapeOf n (h @ c' # Y @ Z) v = shapeOf n (h @ c # Y) v"
proof -
  have w: "wfTree n (h @ c # Y) v" and f: "fresh n b (h @ c # Y) v"
    and s: "refs n (h @ c # Y) v \<subseteq> R \<union> {b..<length (h @ c # Y)}"
    using b by (simp_all add: built_def)
  have "length h \<notin> refs n (h @ c # Y) v" using s r l by auto
  from stable [OF w this, of c' Z b] show ?thesis
    using f s by (auto simp: built_def)
qed

lemma wfTree_valid: "wfTree n h v \<Longrightarrow> valid h v"
  by (cases n) simp_all

lemma isObject_ext [simp]: "valid h v \<Longrightarrow> isObject (h @ ext) v = isObject h v"
  by (cases v) (simp_all add: valid_def)

lemma entries_ext [simp]: "valid h v \<Longrightarrow> entries (h @ ext) v = entries h v"
  by (cases v) (simp_all add: valid_def)

lemma get_ext [simp]: "valid h v \<Longrightarrow> get (h @ ext) v k = get h v k"
  by (simp add: get_def)

lemma wf_Undefined [simp]: "wfTree n h Undefined"
  by (cases n) (simp_all add: valid_def)

lemma refs_Undefined [simp]: "refs n h Undefined = {}"
  by (cases n) simp_all

lemma entry_wf:
  assumes "wfTree (Suc n) h v" and "x \<in> snd ` set (entries h v)"
  shows "wfTree n h x \<and> refs n h x \<subseteq> refs (Suc n) h v"
proof -
  have io: "isObject h v" using assms(2) entries_nonobject [of h v] by (cases "isObject h v") auto
  have x: "x \<in> set (map snd (entries h v))" using assms(2) by simp
  have "wfTree n h x" using assms(1) io x by (auto simp: list_all_iff)
  moreover have "refs n h x \<subseteq> refs (Suc n) h v" using io x by (rule refs_child)
  ultimately show ?thesis by simp
qed

lemma child_wf:
  assumes "wfTree (Suc n) h v"
  shows "wfTree n h (get h v k) \<and> refs n h (get h v k) \<subseteq> refs (Suc n) h v"
proof (cases "map_of (entries h v) k")
  case None
  then show ?thesis by (simp add: get_def)
next
  case (Some x)
  then have "(k, x) \<in> set (entries h v)" by (rule map_of_SomeD)
  then have "x \<in> snd ` set (entries h v)" by force
  from entry_wf [OF assms this] show ?thesis using Some by (simp add: get_def)
qed

lemma mergeKeys_spec:
  fixes h :: heap and T S :: val
  assumes M: "merges n mrg" and C: "copies n cpy"
    and wT: "wfTree (Suc n) h T" and wS: "wfTree (Suc n) h S"
  defines "A \<equiv> refs (Suc n) h T \<union> refs (Suc n) h S"
  defines "expected \<equiv> \<lambda>k x.
     if isNode (fieldOf (shapeOf (Suc n) h T) k) \<and> isNode (fieldOf (shapeOf (Suc n) h S) k)
     then mergeShape (fieldOf (shapeOf (Suc n) h T) k) (fieldOf (shapeOf (Suc n) h S) k)
     else shapeOf n h x"
  shows "distinct (map fst (done @ todo)) \<Longrightarrow>
     list_all (\<lambda>x. wfTree n h x \<and> refs n h x \<subseteq> A) (map snd todo) \<Longrightarrow>
     \<exists>done' X'.
        mergeKeys mrg cpy T S (length h) (map fst todo) (h @ Plain (done @ todo) # X)
          = Some (h @ Plain (done @ done') # X @ X') \<and>
        map fst done' = map fst todo \<and>
        list_all (\<lambda>x'. built n (Suc (length h)) (h @ Plain (done @ done') # X @ X') x' A) (map snd done') \<and>
        map (\<lambda>(k, x'). (k, shapeOf n (h @ Plain (done @ done') # X @ X') x')) done'
          = map (\<lambda>(k, x). (k, expected k x)) todo"
proof (induction todo arbitrary: "done" X)
  case Nil
  then show ?case by simp
next
  case (Cons e todo)
  obtain k x where e: "e = (k, x)" by (cases e)
  let ?H = "h @ Plain (done @ (k, x) # todo) # X"
  have kd: "k \<notin> fst ` set done" using Cons.prems(1) e by auto
  have "a < length h" if "a \<in> A" for a
    using that wf_refs_valid [OF wT, of a] wf_refs_valid [OF wS, of a] unfolding A_def by blast
  then have rA: "length h \<notin> A" by blast
  have cT: "wfTree n h (get h T k)" and cS: "wfTree n h (get h S k)"
    and rT: "refs n h (get h T k) \<subseteq> A" and rS: "refs n h (get h S k) \<subseteq> A"
    using child_wf [OF wT, of k] child_wf [OF wS, of k] unfolding A_def by blast+
  note vT = wfTree_valid [OF cT] and vS = wfTree_valid [OF cS]
  have ex: "expected k x = (if isObject h (get h T k) \<and> isObject h (get h S k)
                           then mergeShape (shapeOf n h (get h T k)) (shapeOf n h (get h S k))
                           else shapeOf n h x)"
    unfolding expected_def field_get isNode_shapeOf [OF cT] isNode_shapeOf [OF cS] ..
  have gT: "get ?H T k = get h T k" and gS: "get ?H S k = get h S k"
    using wfTree_valid [OF wT] wfTree_valid [OF wS] by simp_all
  have gR: "get ?H (Ref (length h)) k = x"
    using map_of_at [OF kd] by (simp add: get_def)
  have wx: "wfTree n h x" and rx: "refs n h x \<subseteq> A" using Cons.prems(2) e by simp_all
  text \<open>the value computed for this key\<close>
  have "\<exists>v' e'. (if isObject ?H (get ?H T k) \<and> isObject ?H (get ?H S k)
                   then mrg (get ?H T k) (get ?H S k) ?H
                   else cpy (get ?H (Ref (length h)) k) ?H) = Some (v', ?H @ e') \<and>
          built n (Suc (length h)) (?H @ e') v' A \<and> shapeOf n (?H @ e') v' = expected k x"
  proof (cases "isObject h (get h T k) \<and> isObject h (get h S k)")
    case True
    have io: "isObject ?H (get h T k)" "isObject ?H (get h S k)"
      using True vT vS by simp_all
    have w: "wfTree n ?H (get h T k)" "wfTree n ?H (get h S k)"
      using cT cS by (simp_all add: wfTree_ext)
    from M w io obtain v' e' where
      m: "mrg (get h T k) (get h S k) ?H = Some (v', ?H @ e')" and
      b: "built n (length ?H) (?H @ e') v' (refs n ?H (get h T k) \<union> refs n ?H (get h S k))" and
      sh: "shapeOf n (?H @ e') v' = mergeShape (shapeOf n ?H (get h T k)) (shapeOf n ?H (get h S k))"
      unfolding merges_def by blast
    have rr: "refs n ?H (get h T k) \<union> refs n ?H (get h S k) \<subseteq> A"
      using rT rS by (simp add: refs_ext [OF cT] refs_ext [OF cS])
    have b': "built n (Suc (length h)) (?H @ e') v' A"
      using built_ext [OF b _ rr, of "Suc (length h)" "[]"] by simp
    have "shapeOf n ?H (get h T k) = shapeOf n h (get h T k)"
         "shapeOf n ?H (get h S k) = shapeOf n h (get h S k)"
      using cT cS by (simp_all add: shapeOf_ext)
    then have "shapeOf n (?H @ e') v' = expected k x"
      using sh True by (simp add: ex)
    then show ?thesis using m b' io gT gS by auto
  next
    case False
    have nio: "\<not> (isObject ?H (get ?H T k) \<and> isObject ?H (get ?H S k))"
      using False vT vS unfolding gT gS by simp
    have w: "wfTree n ?H x" using wx by (rule wfTree_ext)
    from C w obtain v' e' where
      c: "cpy x ?H = Some (v', ?H @ e')" and
      b: "built n (length ?H) (?H @ e') v' (refs n ?H x)" and
      sh: "shapeOf n (?H @ e') v' = shapeOf n ?H x"
      unfolding copies_def by blast
    have rr: "refs n ?H x \<subseteq> A" using wx rx by (simp add: refs_ext)
    have b': "built n (Suc (length h)) (?H @ e') v' A"
      using built_ext [OF b _ rr, of "Suc (length h)" "[]"] by simp
    have "shapeOf n ?H x = shapeOf n h x" using wx by (rule shapeOf_ext)
    then have "shapeOf n (?H @ e') v' = expected k x"
      using sh False by (auto simp: ex)
    then show ?thesis using c b' nio gR by auto
  qed
  then obtain v' e' where
    step: "(if isObject ?H (get ?H T k) \<and> isObject ?H (get ?H S k)
            then mrg (get ?H T k) (get ?H S k) ?H
            else cpy (get ?H (Ref (length h)) k) ?H) = Some (v', ?H @ e')" and
    bv: "built n (Suc (length h)) (?H @ e') v' A" and
    sv: "shapeOf n (?H @ e') v' = expected k x"
    by blast
  have sp: "set_prop (?H @ e') (length h) k v' = h @ Plain ((done @ [(k, v')]) @ todo) # (X @ e')"
    using set_prop_new [of h "done @ (k, x) # todo" "X @ e'" k v'] map_set_at [OF kd, of v' x todo]
    by simp
  have d2: "distinct (map fst ((done @ [(k, v')]) @ todo))" using Cons.prems(1) e by simp
  have t2: "list_all (\<lambda>x. wfTree n h x \<and> refs n h x \<subseteq> A) (map snd todo)"
    using Cons.prems(2) by simp
  from Cons.IH [OF d2 t2, of "X @ e'"] obtain done' X' where
    mk: "mergeKeys mrg cpy T S (length h) (map fst todo) (h @ Plain ((done @ [(k, v')]) @ todo) # (X @ e'))
          = Some (h @ Plain ((done @ [(k, v')]) @ done') # (X @ e') @ X')" and
    ks: "map fst done' = map fst todo" and
    bs: "list_all (\<lambda>x'. built n (Suc (length h)) (h @ Plain ((done @ [(k, v')]) @ done') # (X @ e') @ X') x' A)
           (map snd done')" and
    ss: "map (\<lambda>(q, x'). (q, shapeOf n (h @ Plain ((done @ [(k, v')]) @ done') # (X @ e') @ X') x')) done'
          = map (\<lambda>(k, x). (k, expected k x)) todo"
    by blast
  let ?H' = "h @ Plain (done @ (k, v') # done') # X @ (e' @ X')"
  have He: "?H @ e' = h @ Plain (done @ (k, x) # todo) # (X @ e')" by simp
  from built_stable [OF bv [unfolded He] rA, of "Plain (done @ (k, v') # done')" X']
  have bv': "built n (Suc (length h)) ?H' v' A" and sv': "shapeOf n ?H' v' = expected k x"
    using sv by simp_all
  have 1: "mergeKeys mrg cpy T S (length h) (map fst (e # todo)) (h @ Plain (done @ e # todo) # X)
          = Some ?H'"
    using e step sp mk by simp
  show ?case
    apply (rule exI [of _ "(k, v') # done'"], rule exI [of _ "e' @ X'"])
    using 1 ks bs ss bv' sv' e by simp
qed

lemma merge_body:
  assumes M: "merges n mrg" and C: "copies n cpy"
    and wT: "wfTree (Suc n) h T" and wS: "wfTree (Suc n) h S"
  shows "\<exists>ext. mergeKeys mrg cpy T S (length h)
                 (map fst (spread h S (spread h T []))) (h @ [Plain (spread h S (spread h T []))])
               = Some (h @ ext) \<and>
           built (Suc n) (length h) (h @ ext) (Ref (length h)) (refs (Suc n) h T \<union> refs (Suc n) h S) \<and>
           shapeOf (Suc n) (h @ ext) (Ref (length h))
             = mergeShape (shapeOf (Suc n) h T) (shapeOf (Suc n) h S)"
proof -
  let ?props = "spread h S (spread h T [])"
  let ?A = "refs (Suc n) h T \<union> refs (Suc n) h S"
  let ?t = "shapeOf (Suc n) h T" and ?s = "shapeOf (Suc n) h S"
  let ?expected = "\<lambda>k x. if isNode (fieldOf ?t k) \<and> isNode (fieldOf ?s k)
                          then mergeShape (fieldOf ?t k) (fieldOf ?s k) else shapeOf n h x"
  have d: "distinct (map fst ([] @ ?props))"
    by (simp add: spread_distinct)
  have vals: "snd ` set ?props \<subseteq> snd ` set (entries h T) \<union> snd ` set (entries h S)"
    using spread_values [of h S "spread h T []"] spread_values [of h T "[]"] by auto
  have ok: "list_all (\<lambda>x. wfTree n h x \<and> refs n h x \<subseteq> ?A) (map snd ?props)"
    unfolding list_all_iff
  proof
    fix x assume "x \<in> set (map snd ?props)"
    then have "x \<in> snd ` set (entries h T) \<or> x \<in> snd ` set (entries h S)" using vals by auto
    then show "wfTree n h x \<and> refs n h x \<subseteq> ?A"
      using entry_wf [OF wT, of x] entry_wf [OF wS, of x] by blast
  qed
  from mergeKeys_spec [OF M C wT wS d ok, of "[]"] obtain done' X' where
    mk: "mergeKeys mrg cpy T S (length h) (map fst ?props) (h @ [Plain ?props])
          = Some (h @ Plain done' # X')" and
    ks: "map fst done' = map fst ?props" and
    bs: "list_all (\<lambda>x'. built n (Suc (length h)) (h @ Plain done' # X') x' ?A) (map snd done')" and
    ss: "map (\<lambda>(q, x'). (q, shapeOf n (h @ Plain done' # X') x')) done'
          = map (\<lambda>(k, x). (k, ?expected k x)) ?props"
    by auto
  let ?H' = "h @ Plain done' # X'"
  have bs': "list_all (\<lambda>x'. built n (length h) ?H' x' ?A) (map snd done')"
  proof -
    have "built n (length h) ?H' y ?A" if "built n (Suc (length h)) ?H' y ?A" for y
      using built_ext [OF that, of "length h" ?A "[]"] by simp
    then show ?thesis using bs by (auto simp: list_all_iff)
  qed
  have dd: "distinct (map fst done')" using ks d by simp
  have b: "built (Suc n) (length h) ?H' (Ref (length h)) ?A"
    using bs' dd by (rule built_new_object) simp_all
  have sp: "spreadS (fieldsOf ?s) (spreadS (fieldsOf ?t) []) = map (\<lambda>(k, x). (k, shapeOf n h x)) ?props"
    using spread_shape [of n h S "spread h T []"] spread_shape [of n h T "[]"] by simp
  have "mergeShape ?t ?s = Node (map (\<lambda>(k, x). (k, ?expected k x)) ?props)"
    by (subst mergeShape.simps, unfold sp) (simp add: split_beta)
  moreover have "shapeOf (Suc n) ?H' (Ref (length h)) = Node (map (\<lambda>(k, x). (k, ?expected k x)) ?props)"
    using ss by simp
  ultimately have sh: "shapeOf (Suc n) ?H' (Ref (length h)) = mergeShape ?t ?s" by simp
  show ?thesis
    using mk b sh by (intro exI [of _ "Plain done' # X'"]) simp
qed

lemma deepMergeConfig_merges: "merges n (deepMergeConfig n)"
proof (induction n)
  case 0
  show ?case by (simp add: merges_def)
next
  case (Suc n)
  show ?case
    unfolding merges_def
  proof (intro allI impI)
    fix t s h assume a: "wfTree (Suc n) h t \<and> wfTree (Suc n) h s \<and> isObject h t \<and> isObject h s"
    from merge_body [OF Suc deepCopy_copies, of h t s] a obtain ext where
      "mergeKeys (deepMergeConfig n) (deepCopy n) t s (length h)
                 (map fst (spread h s (spread h t []))) (h @ [Plain (spread h s (spread h t []))])
               = Some (h @ ext)"
      "built (Suc n) (length h) (h @ ext) (Ref (length h)) (refs (Suc n) h t \<union> refs (Suc n) h s)"
      "shapeOf (Suc n) (h @ ext) (Ref (length h)) = mergeShape (shapeOf (Suc n) h t) (shapeOf (Suc n) h s)"
      by blast
    then show "\<exists>v' ext. deepMergeConfig (Suc n) t s h = Some (v', h @ ext) \<and>
        built (Suc n) (length h) (h @ ext) v' (refs (Suc n) h t \<union> refs (Suc n) h s) \<and>
        shapeOf (Suc n) (h @ ext) v' = mergeShape (shapeOf (Suc n) h t) (shapeOf (Suc n) h s)"
      by (intro exI [of _ "Ref (length h)"] exI [of _ ext]) (simp add: Let_def)
  qed
qed

text \<open>\<^verbatim>\<open>deepMergeConfig\<close> on two trees of plain objects: it returns a new tree, in a store that
  continues the given one, with the shape of the merge.\<close>

lemma deepMergeConfig_spec:
  assumes wT: "wfTree (Suc n) h T" and wS: "wfTree (Suc n) h S"
  shows "\<exists>ext. deepMergeConfig (Suc n) T S h = Some (Ref (length h), h @ ext) \<and>
           built (Suc n) (length h) (h @ ext) (Ref (length h)) (refs (Suc n) h T \<union> refs (Suc n) h S) \<and>
           shapeOf (Suc n) (h @ ext) (Ref (length h))
             = mergeShape (shapeOf (Suc n) h T) (shapeOf (Suc n) h S)"
proof -
  from merge_body [OF deepMergeConfig_merges deepCopy_copies wT wS] obtain ext where
    "mergeKeys (deepMergeConfig n) (deepCopy n) T S (length h)
               (map fst (spread h S (spread h T []))) (h @ [Plain (spread h S (spread h T []))])
             = Some (h @ ext)"
    "built (Suc n) (length h) (h @ ext) (Ref (length h)) (refs (Suc n) h T \<union> refs (Suc n) h S)"
    "shapeOf (Suc n) (h @ ext) (Ref (length h)) = mergeShape (shapeOf (Suc n) h T) (shapeOf (Suc n) h S)"
    by blast
  then show ?thesis by (intro exI [of _ ext]) (simp add: Let_def)
qed

lemma fold_set_fresh:
  "distinct (map fst (acc @ es)) \<Longrightarrow> foldl (\<lambda>acc (k, x). map_set k x acc) acc es = acc @ es"
proof (induction es arbitrary: acc)
  case Nil
  then show ?case by simp
next
  case (Cons e es)
  obtain k x where e: "e = (k, x)" by (cases e)
  have "k \<notin> fst ` set acc" using Cons.prems e by auto
  then have "map_set k x acc = acc @ [(k, x)]" by (induction acc) auto
  then show ?case using Cons.IH [of "acc @ [e]"] Cons.prems e by simp
qed

lemma mergeShape_empty:
  assumes "distinct (map fst fs)" and "fieldsOf s = []"
  shows "mergeShape (Node fs) s = Node fs"
proof -
  have "fieldOf s k = Leaf Undefined" for k using assms(2) by (simp add: fieldOf_def)
  moreover have "spreadS (fieldsOf s) (spreadS fs []) = fs"
    using assms fold_set_fresh [of "[]" fs] by (simp add: spreadS_def)
  ultimately show ?thesis
    by (subst mergeShape.simps) (simp add: split_beta)
qed

subsection \<open>The loop of \<^verbatim>\<open>deepDiffConfig\<close>\<close>

lemma diffShape_entries: "diffShape old new = Node (concat (map (\<lambda>(k, x). diffEntry old k x) (fieldsOf new)))"
  by (subst diffShape.simps, unfold diffEntry_def, rule refl)

lemma shapeOf_eq_iff:
  "wfTree n h u \<Longrightarrow> wfTree n h v \<Longrightarrow> \<not> (isObject h u \<and> isObject h v) \<Longrightarrow>
   (shapeOf n h u = shapeOf n h v) = (u = v)"
  by (cases n) auto

lemma map_set_fresh: "k \<notin> fst ` set m \<Longrightarrow> map_set k v m = m @ [(k, v)]"
  by (induction m) auto

lemma entries_isObject: "entries h v \<noteq> [] \<Longrightarrow> isObject h v"
  using entries_nonobject by blast

lemma diffKeys_step:
  fixes h :: heap and Old New :: val
  assumes D: "diffs n dif" and wO: "wfTree (Suc n) h Old" and vN: "valid h New"
    and kd: "k \<notin> fst ` set done" and gx: "get h New k = x" and wx: "wfTree n h x"
  shows "\<exists>d1 e'.
     (\<forall>keys. diffKeys dif Old New (length h) (k # keys) (h @ Plain done # X)
             = diffKeys dif Old New (length h) keys (h @ Plain (done @ d1) # X @ e')) \<and>
     fst ` set d1 \<subseteq> {k} \<and> distinct (map fst d1) \<and>
     list_all (\<lambda>x'. wfTree n (h @ Plain done # X @ e') x' \<and>
                    refs n (h @ Plain done # X @ e') x'
                      \<subseteq> refs n h x \<union> {Suc (length h)..<length (h @ Plain done # X @ e')}) (map snd d1) \<and>
     map (\<lambda>(q, x'). (q, shapeOf n (h @ Plain done # X @ e') x')) d1
       = diffEntry (shapeOf (Suc n) h Old) k (shapeOf n h x)"
proof -
  let ?H = "h @ Plain done # X"
  let ?o = "get h Old k"
  have cO: "wfTree n h ?o" using child_wf [OF wO, of k] by blast
  note vO = wfTree_valid [OF cO] and vx = wfTree_valid [OF wx]
  have gO: "get ?H Old k = ?o" and gN: "get ?H New k = x"
    using wfTree_valid [OF wO] vN gx by simp_all
  have fo: "fieldOf (shapeOf (Suc n) h Old) k = shapeOf n h ?o" by (rule field_get)
  have no: "isNode (shapeOf n h ?o) = isObject h ?o" and nx: "isNode (shapeOf n h x) = isObject h x"
    using cO wx by (simp_all add: isNode_shapeOf)
  have io: "isObject ?H ?o = isObject h ?o" and ix: "isObject ?H x = isObject h x"
    using vO vx by simp_all
  have de0: "diffEntry (shapeOf (Suc n) h Old) k (shapeOf n h x) =
     (if isObject h ?o \<and> isObject h x
      then (if fieldsOf (diffShape (shapeOf n h ?o) (shapeOf n h x)) \<noteq> []
            then [(k, diffShape (shapeOf n h ?o) (shapeOf n h x))] else [])
      else if shapeOf n h ?o \<noteq> shapeOf n h x then [(k, shapeOf n h x)] else [])"
    unfolding diffEntry_def fo no nx ..
  show ?thesis
  proof (cases "isObject h ?o \<and> isObject h x")
    case True
    have w: "wfTree n ?H ?o" "wfTree n ?H x" using cO wx by (simp_all add: wfTree_ext)
    from D w True io ix obtain v' e' where
      m: "dif ?o x ?H = Some (v', ?H @ e')" and
      iv: "isObject (?H @ e') v'" and
      wv: "wfTree n (?H @ e') v'" and
      rv: "refs n (?H @ e') v' \<subseteq> refs n ?H x \<union> {length ?H..<length (?H @ e')}" and
      sh: "shapeOf n (?H @ e') v' = diffShape (shapeOf n ?H ?o) (shapeOf n ?H x)"
      unfolding diffs_def by blast
    have sh': "shapeOf n (?H @ e') v' = diffShape (shapeOf n h ?o) (shapeOf n h x)"
      using sh cO wx by (simp add: shapeOf_ext)
    have rv': "refs n (?H @ e') v' \<subseteq> refs n h x \<union> {Suc (length h)..<length (?H @ e')}"
      using rv wx by (auto simp: refs_ext)
    obtain m' where n: "n = Suc m'" using wv iv by (cases n) auto
    have fe: "fieldsOf (shapeOf n (?H @ e') v') = map (\<lambda>(k, x). (k, shapeOf m' (?H @ e') x)) (entries (?H @ e') v')"
      unfolding n by (rule fields_shapeOf)
    have ne: "(entries (?H @ e') v' \<noteq> []) = (fieldsOf (diffShape (shapeOf n h ?o) (shapeOf n h x)) \<noteq> [])"
      using fe sh' by simp
    show ?thesis
    proof (cases "entries (?H @ e') v' \<noteq> []")
      case nonempty: True
      have sp: "set_prop (?H @ e') (length h) k v' = h @ Plain (done @ [(k, v')]) # X @ e'"
        using set_prop_new [of h "done" "X @ e'" k v'] map_set_fresh [OF kd, of v'] by simp
      have eq: "\<forall>keys. diffKeys dif Old New (length h) (k # keys) ?H
             = diffKeys dif Old New (length h) keys (h @ Plain (done @ [(k, v')]) # X @ e')"
        using True io ix gO gN m nonempty sp by simp
      have de: "diffEntry (shapeOf (Suc n) h Old) k (shapeOf n h x) = [(k, shapeOf n (?H @ e') v')]"
        using True nonempty ne sh' by (simp add: de0 del: shapeOf.simps)
      show ?thesis
        apply (rule exI [of _ "[(k, v')]"], rule exI [of _ e'])
        using eq wv rv' de by simp
    next
      case empty: False
      have eq: "\<forall>keys. diffKeys dif Old New (length h) (k # keys) ?H
             = diffKeys dif Old New (length h) keys (h @ Plain (done @ []) # X @ e')"
        using True io ix gO gN m empty by simp
      have de: "diffEntry (shapeOf (Suc n) h Old) k (shapeOf n h x) = []"
        using True empty ne by (simp add: de0 del: shapeOf.simps)
      show ?thesis
        apply (rule exI [of _ "[]"], rule exI [of _ e'])
        using eq de by simp
    qed
  next
    case False
    have nb: "\<not> (isObject ?H ?o \<and> isObject ?H x)"
      using False io ix by simp
    have se: "(shapeOf n h ?o = shapeOf n h x) = (?o = x)"
      using cO wx False by (rule shapeOf_eq_iff)
    show ?thesis
    proof (cases "?o = x")
      case same: True
      have eq: "\<forall>keys. diffKeys dif Old New (length h) (k # keys) ?H
             = diffKeys dif Old New (length h) keys (h @ Plain (done @ []) # X @ [])"
        using nb same by (simp add: gO gN)
      have de: "diffEntry (shapeOf (Suc n) h Old) k (shapeOf n h x) = []"
        using False same by (auto simp: de0 simp del: shapeOf.simps)
      show ?thesis
        apply (rule exI [of _ "[]"], rule exI [of _ "[]"])
        using eq de by simp
    next
      case differ: False
      have sp: "set_prop ?H (length h) k x = h @ Plain (done @ [(k, x)]) # X @ []"
        using set_prop_new [of h "done" X k x] map_set_fresh [OF kd, of x] by simp
      have eq: "\<forall>keys. diffKeys dif Old New (length h) (k # keys) ?H
             = diffKeys dif Old New (length h) keys (h @ Plain (done @ [(k, x)]) # X @ [])"
        by (simp add: nb gO gN differ sp)
      have de: "diffEntry (shapeOf (Suc n) h Old) k (shapeOf n h x) = [(k, shapeOf n h x)]"
        using False differ se by (auto simp: de0 simp del: shapeOf.simps)
      have w: "wfTree n ?H x" and r: "refs n ?H x = refs n h x" and s: "shapeOf n ?H x = shapeOf n h x"
        using wx by (simp_all add: wfTree_ext refs_ext shapeOf_ext)
      show ?thesis
        apply (rule exI [of _ "[(k, x)]"], rule exI [of _ "[]"])
        using eq de w r s by simp
    qed
  qed
qed

lemma diffKeys_spec:
  fixes h :: heap and Old New :: val
  assumes D: "diffs n dif" and wO: "wfTree (Suc n) h Old" and wN: "wfTree (Suc n) h New"
  defines "A \<equiv> refs (Suc n) h New"
  shows "distinct (map fst todo) \<Longrightarrow> set todo \<subseteq> set (entries h New) \<Longrightarrow>
     fst ` set done \<inter> fst ` set todo = {} \<Longrightarrow>
     \<exists>done' X'.
        diffKeys dif Old New (length h) (map fst todo) (h @ Plain done # X)
          = Some (h @ Plain (done @ done') # X @ X') \<and>
        fst ` set done' \<subseteq> fst ` set todo \<and> distinct (map fst done') \<and>
        list_all (\<lambda>x'. wfTree n (h @ Plain (done @ done') # X @ X') x' \<and>
                       refs n (h @ Plain (done @ done') # X @ X') x'
                         \<subseteq> A \<union> {Suc (length h)..<length (h @ Plain (done @ done') # X @ X')})
                 (map snd done') \<and>
        map (\<lambda>(q, x'). (q, shapeOf n (h @ Plain (done @ done') # X @ X') x')) done'
          = concat (map (\<lambda>(k, x). diffEntry (shapeOf (Suc n) h Old) k (shapeOf n h x)) todo)"
proof (induction todo arbitrary: "done" X)
  case Nil
  then show ?case by simp
next
  case (Cons e todo)
  obtain k x where e: "e = (k, x)" by (cases e)
  have kd: "k \<notin> fst ` set done" using Cons.prems(3) e by auto
  have mem: "(k, x) \<in> set (entries h New)" using Cons.prems(2) e by auto
  then have "entries h New \<noteq> []" by auto
  then have io: "isObject h New" by (rule entries_isObject)
  have dn: "distinct (map fst (entries h New))" using wN io by simp
  have gx: "get h New k = x" using mem dn by (simp add: get_def)
  have "x \<in> snd ` set (entries h New)" using mem by force
  from entry_wf [OF wN this] have wx: "wfTree n h x" and rx: "refs n h x \<subseteq> A"
    unfolding A_def by blast+
  have "a < length h" if "a \<in> A" for a
    using that wf_refs_valid [OF wN, of a] unfolding A_def by blast
  then have rA: "length h \<notin> A" by blast
  from diffKeys_step [OF D wO wfTree_valid [OF wN] kd gx wx, of X] obtain d1 e' where
    eq: "\<And>keys. diffKeys dif Old New (length h) (k # keys) (h @ Plain done # X)
             = diffKeys dif Old New (length h) keys (h @ Plain (done @ d1) # X @ e')" and
    k1: "fst ` set d1 \<subseteq> {k}" and dd1: "distinct (map fst d1)" and
    w1: "list_all (\<lambda>x'. wfTree n (h @ Plain done # X @ e') x' \<and>
                    refs n (h @ Plain done # X @ e') x'
                      \<subseteq> refs n h x \<union> {Suc (length h)..<length (h @ Plain done # X @ e')}) (map snd d1)" and
    s1: "map (\<lambda>(q, x'). (q, shapeOf n (h @ Plain done # X @ e') x')) d1
       = diffEntry (shapeOf (Suc n) h Old) k (shapeOf n h x)"
    by blast
  have d2: "distinct (map fst todo)" using Cons.prems(1) by simp
  have t2: "set todo \<subseteq> set (entries h New)" using Cons.prems(2) by simp
  have kt: "k \<notin> fst ` set todo" using Cons.prems(1) e by (auto simp: rev_image_eqI)
  have i2: "fst ` set (done @ d1) \<inter> fst ` set todo = {}"
    using Cons.prems(3) k1 kt e by auto
  from Cons.IH [OF d2 t2 i2, of "X @ e'"] obtain done' X' where
    dk: "diffKeys dif Old New (length h) (map fst todo) (h @ Plain (done @ d1) # X @ e')
          = Some (h @ Plain ((done @ d1) @ done') # (X @ e') @ X')" and
    ks: "fst ` set done' \<subseteq> fst ` set todo" and dd: "distinct (map fst done')" and
    ws: "list_all (\<lambda>x'. wfTree n (h @ Plain ((done @ d1) @ done') # (X @ e') @ X') x' \<and>
                       refs n (h @ Plain ((done @ d1) @ done') # (X @ e') @ X') x'
                         \<subseteq> A \<union> {Suc (length h)..<length (h @ Plain ((done @ d1) @ done') # (X @ e') @ X')})
                 (map snd done')" and
    ss: "map (\<lambda>(q, x'). (q, shapeOf n (h @ Plain ((done @ d1) @ done') # (X @ e') @ X') x')) done'
          = concat (map (\<lambda>(k, x). diffEntry (shapeOf (Suc n) h Old) k (shapeOf n h x)) todo)"
    by auto
  let ?H1 = "h @ Plain done # (X @ e')"
  let ?H' = "h @ Plain (done @ d1 @ done') # (X @ e') @ X'"
  have mv: "wfTree n ?H' y \<and> refs n ?H' y \<subseteq> A \<union> {Suc (length h)..<length ?H'} \<and>
            shapeOf n ?H' y = shapeOf n ?H1 y"
    if y: "y \<in> set (map snd d1)" for y
  proof -
    have w: "wfTree n ?H1 y"
      and r: "refs n ?H1 y \<subseteq> refs n h x \<union> {Suc (length h)..<length ?H1}"
      using w1 y by (auto simp: list_all_iff)
    have "length h \<notin> refs n ?H1 y" using r rx rA by auto
    from stable [OF w this, of "Plain (done @ d1 @ done')" X' 0] show ?thesis
      using r rx by auto
  qed
  have w1': "list_all (\<lambda>x'. wfTree n ?H' x' \<and> refs n ?H' x' \<subseteq> A \<union> {Suc (length h)..<length ?H'})
                (map snd d1)"
    using mv by (simp add: list_all_iff)
  have "map (\<lambda>(q, x'). (q, shapeOf n ?H' x')) d1 = map (\<lambda>(q, x'). (q, shapeOf n ?H1 x')) d1"
    using mv by (auto simp: rev_image_eqI)
  then have s1': "map (\<lambda>(q, x'). (q, shapeOf n ?H' x')) d1
                = diffEntry (shapeOf (Suc n) h Old) k (shapeOf n h x)"
    using s1 by simp
  have "fst ` set d1 \<inter> fst ` set done' = {}" using k1 ks kt by blast
  then have dis: "distinct (map fst (d1 @ done'))"
    using dd1 dd by simp
  have keys: "fst ` set (d1 @ done') \<subseteq> fst ` set (e # todo)"
    using k1 ks e by auto
  have 1: "diffKeys dif Old New (length h) (map fst (e # todo)) (h @ Plain done # X) = Some ?H'"
    using eq [of "map fst todo"] dk e by simp
  show ?case
    apply (rule exI [of _ "d1 @ done'"], rule exI [of _ "e' @ X'"])
    using 1 keys dis w1' ws s1' ss e by simp
qed

lemma concat_map_pairs:
  "concat (map (\<lambda>(k, x). f k x) (map (\<lambda>(k, x). (k, g x)) es)) = concat (map (\<lambda>(k, x). f k (g x)) es)"
  by (induction es) auto

lemma diff_body:
  assumes D: "diffs n dif" and wO: "wfTree (Suc n) h Old" and wN: "wfTree (Suc n) h New"
  shows "\<exists>ext. diffKeys dif Old New (length h) (map fst (entries h New)) (h @ [Plain []])
               = Some (h @ ext) \<and>
           isObject (h @ ext) (Ref (length h)) \<and> wfTree (Suc n) (h @ ext) (Ref (length h)) \<and>
           refs (Suc n) (h @ ext) (Ref (length h)) \<subseteq> refs (Suc n) h New \<union> {length h..<length (h @ ext)} \<and>
           shapeOf (Suc n) (h @ ext) (Ref (length h))
             = diffShape (shapeOf (Suc n) h Old) (shapeOf (Suc n) h New)"
proof -
  define A where "A = refs (Suc n) h New"
  have d: "distinct (map fst (entries h New))"
  proof (cases "isObject h New")
    case True
    then show ?thesis using wN by simp
  next
    case False
    then show ?thesis by (simp add: entries_nonobject)
  qed
  from diffKeys_spec [OF D wO wN d, of "[]" "[]", folded A_def] obtain done' X' where
    dk: "diffKeys dif Old New (length h) (map fst (entries h New)) (h @ [Plain []])
          = Some (h @ Plain done' # X')" and
    dd: "distinct (map fst done')" and
    ws: "list_all (\<lambda>x'. wfTree n (h @ Plain done' # X') x' \<and>
                       refs n (h @ Plain done' # X') x' \<subseteq> A \<union> {Suc (length h)..<length (h @ Plain done' # X')})
                 (map snd done')" and
    ss: "map (\<lambda>(q, x'). (q, shapeOf n (h @ Plain done' # X') x')) done'
          = concat (map (\<lambda>(k, x). diffEntry (shapeOf (Suc n) h Old) k (shapeOf n h x)) (entries h New))"
    by auto
  let ?H' = "h @ Plain done' # X'"
  have w: "wfTree (Suc n) ?H' (Ref (length h))"
    using dd ws by (simp add: valid_def list_all_iff)
  have rc: "refs n ?H' y \<subseteq> A \<union> {length h..<length ?H'}" if "y \<in> snd ` set done'" for y
  proof -
    have "refs n ?H' y \<subseteq> A \<union> {Suc (length h)..<length ?H'}"
      using ws that by (auto simp: list_all_iff)
    then show ?thesis by auto
  qed
  have "refs (Suc n) ?H' (Ref (length h)) = {length h} \<union> (\<Union>y\<in>snd ` set done'. refs n ?H' y)"
    by simp
  then have r: "refs (Suc n) ?H' (Ref (length h)) \<subseteq> A \<union> {length h..<length ?H'}"
    using rc by (simp del: refs.simps) blast
  have "diffShape (shapeOf (Suc n) h Old) (shapeOf (Suc n) h New)
        = Node (concat (map (\<lambda>(k, x). diffEntry (shapeOf (Suc n) h Old) k (shapeOf n h x)) (entries h New)))"
    unfolding diffShape_entries [of "shapeOf (Suc n) h Old"] fields_shapeOf concat_map_pairs ..
  then have sh: "shapeOf (Suc n) ?H' (Ref (length h)) = diffShape (shapeOf (Suc n) h Old) (shapeOf (Suc n) h New)"
    using ss by simp
  show ?thesis
    using dk w r [unfolded A_def] sh
    by (intro exI [of _ "Plain done' # X'"]) (simp del: wfTree.simps refs.simps shapeOf.simps)
qed

lemma deepDiffConfig_diffs: "diffs n (deepDiffConfig n)"
proof (induction n)
  case 0
  show ?case by (simp add: diffs_def)
next
  case (Suc n)
  show ?case
    unfolding diffs_def
  proof (intro allI impI)
    fix old new h
    assume a: "wfTree (Suc n) h old \<and> wfTree (Suc n) h new \<and> isObject h old \<and> isObject h new"
    from diff_body [OF Suc, of h old new] a obtain ext where
      "diffKeys (deepDiffConfig n) old new (length h) (map fst (entries h new)) (h @ [Plain []])
               = Some (h @ ext)"
      "isObject (h @ ext) (Ref (length h))" "wfTree (Suc n) (h @ ext) (Ref (length h))"
      "refs (Suc n) (h @ ext) (Ref (length h)) \<subseteq> refs (Suc n) h new \<union> {length h..<length (h @ ext)}"
      "shapeOf (Suc n) (h @ ext) (Ref (length h)) = diffShape (shapeOf (Suc n) h old) (shapeOf (Suc n) h new)"
      by blast
    then show "\<exists>v' ext. deepDiffConfig (Suc n) old new h = Some (v', h @ ext) \<and>
        isObject (h @ ext) v' \<and> wfTree (Suc n) (h @ ext) v' \<and>
        refs (Suc n) (h @ ext) v' \<subseteq> refs (Suc n) h new \<union> {length h..<length (h @ ext)} \<and>
        shapeOf (Suc n) (h @ ext) v' = diffShape (shapeOf (Suc n) h old) (shapeOf (Suc n) h new)"
      by (intro exI [of _ "Ref (length h)"] exI [of _ ext]) (simp add: Let_def del: wfTree.simps refs.simps shapeOf.simps)
  qed
qed

lemma deepDiffConfig_spec:
  assumes wO: "wfTree (Suc n) h Old" and wN: "wfTree (Suc n) h New"
  shows "\<exists>ext. deepDiffConfig (Suc n) Old New h = Some (Ref (length h), h @ ext) \<and>
           wfTree (Suc n) (h @ ext) (Ref (length h)) \<and>
           shapeOf (Suc n) (h @ ext) (Ref (length h))
             = diffShape (shapeOf (Suc n) h Old) (shapeOf (Suc n) h New)"
proof -
  from diff_body [OF deepDiffConfig_diffs wO wN] obtain ext where
    "diffKeys (deepDiffConfig n) Old New (length h) (map fst (entries h New)) (h @ [Plain []])
               = Some (h @ ext)"
    "wfTree (Suc n) (h @ ext) (Ref (length h))"
    "shapeOf (Suc n) (h @ ext) (Ref (length h)) = diffShape (shapeOf (Suc n) h Old) (shapeOf (Suc n) h New)"
    by blast
  then show ?thesis
    by (intro exI [of _ ext]) (simp add: Let_def del: wfTree.simps refs.simps shapeOf.simps)
qed

subsection \<open>Merging a difference, on shapes\<close>

lemma size_field: "(k, x) \<in> set (fieldsOf t) \<Longrightarrow> size x < size t"
proof (cases t)
  case (Leaf v)
  assume "(k, x) \<in> set (fieldsOf t)"
  then show ?thesis using Leaf by simp
next
  case (Node fs)
  assume "(k, x) \<in> set (fieldsOf t)"
  then have "(k, x) \<in> set fs" using Node by simp
  then have "size x < size (Node fs)" by (induction fs) auto
  then show ?thesis using Node by simp
qed

lemma wfS_fields: "wfS t \<Longrightarrow> distinct (map fst (fieldsOf t))"
  by (cases t) simp_all

lemma wfS_child: "wfS t \<Longrightarrow> (k, x) \<in> set (fieldsOf t) \<Longrightarrow> wfS x"
  by (cases t) (auto simp: list_all_iff)

lemma field_member: "distinct (map fst (fieldsOf t)) \<Longrightarrow> (k, x) \<in> set (fieldsOf t) \<Longrightarrow> fieldOf t k = x"
  by (simp add: fieldOf_def)

lemma wfS_field: "wfS t \<Longrightarrow> wfS (fieldOf t k)"
proof (cases "map_of (fieldsOf t) k")
  case None
  then show ?thesis by (simp add: fieldOf_def)
next
  case (Some x)
  assume "wfS t"
  moreover have "(k, x) \<in> set (fieldsOf t)" using Some by (rule map_of_SomeD)
  ultimately have "wfS x" by (rule wfS_child)
  then show ?thesis using Some by (simp add: fieldOf_def)
qed

lemma field_Node_key: "isNode (fieldOf t k) \<Longrightarrow> k \<in> fst ` set (fieldsOf t)"
  by (cases "map_of (fieldsOf t) k") (auto simp: fieldOf_def dest: map_of_SomeD intro: rev_image_eqI)

lemma field_no_key: "k \<notin> fst ` set (fieldsOf t) \<Longrightarrow> fieldOf t k = Leaf Undefined"
proof -
  assume "k \<notin> fst ` set (fieldsOf t)"
  then have "map_of (fieldsOf t) k = None" by (simp add: map_of_eq_None_iff)
  then show ?thesis by (simp add: fieldOf_def)
qed

lemma map_of_map_set: "map_of (map_set k v m) = (map_of m)(k \<mapsto> v)"
  by (induction m) auto

lemma map_of_fold_set:
  "distinct (map fst es) \<Longrightarrow>
   map_of (foldl (\<lambda>acc (k, x). map_set k x acc) props es) q
     = (case map_of es q of Some y \<Rightarrow> Some y | None \<Rightarrow> map_of props q)"
proof (induction es arbitrary: props)
  case Nil
  then show ?case by simp
next
  case (Cons e es)
  obtain k v where e: "e = (k, v)" by (cases e)
  have "map_of es k = None" using Cons.prems e by (simp add: map_of_eq_None_iff)
  then show ?case using Cons e by (auto simp: map_of_map_set split: option.splits)
qed

lemma map_of_map_key:
  "map_of (map (\<lambda>(k, x). (k, F k x)) P) k = map_option (F k) (map_of P k)"
  by (induction P) auto

lemma field_mergeShape:
  assumes dt: "distinct (map fst (fieldsOf t))" and ds: "distinct (map fst (fieldsOf s))"
  shows "fieldOf (mergeShape t s) k =
     (if isNode (fieldOf t k) \<and> isNode (fieldOf s k) then mergeShape (fieldOf t k) (fieldOf s k)
      else if k \<in> fst ` set (fieldsOf s) then fieldOf s k else fieldOf t k)"
proof -
  let ?P = "spreadS (fieldsOf s) (spreadS (fieldsOf t) [])"
  let ?F = "\<lambda>k x. if isNode (fieldOf t k) \<and> isNode (fieldOf s k) then mergeShape (fieldOf t k) (fieldOf s k) else x"
  have P: "map_of ?P k = (case map_of (fieldsOf s) k of Some y \<Rightarrow> Some y | None \<Rightarrow> map_of (fieldsOf t) k)"
    unfolding spreadS_def
    using map_of_fold_set [OF dt, of "[]" k]
      map_of_fold_set [OF ds, of "foldl (\<lambda>acc (k, x). map_set k x acc) [] (fieldsOf t)" k]
    by (simp split: option.splits)
  have "fieldsOf (mergeShape t s) = map (\<lambda>(k, x). (k, ?F k x)) ?P"
    by (subst mergeShape.simps) simp
  then have "map_of (fieldsOf (mergeShape t s)) k = map_option (?F k) (map_of ?P k)"
    by (simp only: map_of_map_key)
  then have f: "fieldOf (mergeShape t s) k
        = (case map_of ?P k of Some x \<Rightarrow> ?F k x | None \<Rightarrow> Leaf Undefined)"
    unfolding fieldOf_def [of "mergeShape t s" k] by (cases "map_of ?P k") simp_all
  show ?thesis
  proof (cases "map_of (fieldsOf s) k")
    case None
    then have "k \<notin> fst ` set (fieldsOf s)" by (simp add: map_of_eq_None_iff)
    moreover have "fieldOf s k = Leaf Undefined" using None by (simp add: fieldOf_def)
    ultimately show ?thesis using f P None by (simp add: fieldOf_def split: option.splits)
  next
    case (Some y)
    then have "k \<in> fst ` set (fieldsOf s)" by (auto dest: map_of_SomeD intro: rev_image_eqI)
    moreover have "fieldOf s k = y" using Some by (simp add: fieldOf_def)
    ultimately show ?thesis using f P Some by simp
  qed
qed

lemma diffEntry_cases: "diffEntry old k x = [] \<or> (\<exists>y. diffEntry old k x = [(k, y)])"
  by (simp add: diffEntry_def)

lemma diffEntry_key: "fst ` set (diffEntry old k x) \<subseteq> {k}"
  using diffEntry_cases [of old k x] by auto

lemma diff_fields_key:
  "fst ` set (concat (map (\<lambda>(k, x). diffEntry old k x) fs)) \<subseteq> fst ` set fs"
proof (induction fs)
  case Nil
  then show ?case by simp
next
  case (Cons e fs)
  obtain k x where e: "e = (k, x)" by (cases e)
  have c: "concat (map (\<lambda>(k, x). diffEntry old k x) (e # fs))
           = diffEntry old k x @ concat (map (\<lambda>(k, x). diffEntry old k x) fs)"
    using e by simp
  have s: "fst ` set (e # fs) = insert k (fst ` set fs)" using e by simp
  show ?case unfolding c s set_append image_Un
    using Cons.IH diffEntry_key [of old k x] by blast
qed

lemma diff_fields_distinct:
  "distinct (map fst fs) \<Longrightarrow> distinct (map fst (concat (map (\<lambda>(k, x). diffEntry old k x) fs)))"
proof (induction fs)
  case Nil
  then show ?case by simp
next
  case (Cons e fs)
  obtain k x where e: "e = (k, x)" by (cases e)
  have c: "concat (map (\<lambda>(k, x). diffEntry old k x) (e # fs))
           = diffEntry old k x @ concat (map (\<lambda>(k, x). diffEntry old k x) fs)"
    using e by simp
  have "k \<notin> fst ` set fs" using Cons.prems e by simp
  then have nk: "k \<notin> fst ` set (concat (map (\<lambda>(k, x). diffEntry old k x) fs))"
    using diff_fields_key [of old fs] by blast
  have d: "distinct (map fst (concat (map (\<lambda>(k, x). diffEntry old k x) fs)))"
    using Cons by simp
  have "fst ` set (diffEntry old k x) \<inter> fst ` set (concat (map (\<lambda>(k, x). diffEntry old k x) fs)) = {}"
    using nk diffEntry_key [of old k x] by blast
  moreover have "distinct (map fst (diffEntry old k x))"
    using diffEntry_cases [of old k x] by auto
  ultimately show ?case unfolding c using d by (simp del: set_concat map_concat)
qed

lemma diff_fields_lookup:
  "distinct (map fst fs) \<Longrightarrow> (k, x) \<in> set fs \<Longrightarrow>
   map_of (concat (map (\<lambda>(k, x). diffEntry old k x) fs)) k = map_of (diffEntry old k x) k"
proof (induction fs)
  case Nil
  then show ?case by simp
next
  case (Cons e fs)
  obtain k' x' where e: "e = (k', x')" by (cases e)
  have c: "concat (map (\<lambda>(k, x). diffEntry old k x) (e # fs))
           = diffEntry old k' x' @ concat (map (\<lambda>(k, x). diffEntry old k x) fs)"
    using e by simp
  show ?case
  proof (cases "k' = k")
    case True
    have "k \<notin> fst ` set fs" using Cons.prems(1) e True by simp
    moreover from this have x: "x' = x" using Cons.prems(2) e True by (auto simp: rev_image_eqI)
    ultimately have "k \<notin> fst ` set (concat (map (\<lambda>(k, x). diffEntry old k x) fs))"
      using diff_fields_key [of old fs] by blast
    then have n: "map_of (concat (map (\<lambda>(k, x). diffEntry old k x) fs)) k = None"
      by (rule map_of_eq_None_iff [THEN iffD2])
    show ?thesis unfolding c map_of_append
      using n True x diffEntry_cases [of old k x] by (auto simp: map_add_def simp del: set_concat)
  next
    case False
    then have "(k, x) \<in> set fs" using Cons.prems(2) e by simp
    then have ih: "map_of (concat (map (\<lambda>(k, x). diffEntry old k x) fs)) k = map_of (diffEntry old k x) k"
      using Cons by simp
    have "map_of (diffEntry old k' x') k = None"
      using False diffEntry_cases [of old k' x'] by auto
    then show ?thesis unfolding c map_of_append using ih by (simp add: map_add_def)
  qed
qed

lemma fields_diffShape: "fieldsOf (diffShape old new) = concat (map (\<lambda>(k, x). diffEntry old k x) (fieldsOf new))"
  by (simp add: diffShape_entries)

lemma diffShape_distinct: "distinct (map fst (fieldsOf new)) \<Longrightarrow> distinct (map fst (fieldsOf (diffShape old new)))"
  unfolding fields_diffShape by (rule diff_fields_distinct)

lemma field_diffShape:
  assumes "distinct (map fst (fieldsOf new))" and "(k, x) \<in> set (fieldsOf new)"
  shows "fieldOf (diffShape old new) k =
           (case diffEntry old k x of [] \<Rightarrow> Leaf Undefined | e # es \<Rightarrow> snd e)"
    and "(k \<in> fst ` set (fieldsOf (diffShape old new))) = (diffEntry old k x \<noteq> [])"
proof -
  have m: "map_of (fieldsOf (diffShape old new)) k = map_of (diffEntry old k x) k"
    unfolding fields_diffShape using assms by (rule diff_fields_lookup)
  show "fieldOf (diffShape old new) k = (case diffEntry old k x of [] \<Rightarrow> Leaf Undefined | e # es \<Rightarrow> snd e)"
    using m diffEntry_cases [of old k x] by (auto simp: fieldOf_def)
  have "(k \<in> fst ` set (fieldsOf (diffShape old new))) = (map_of (fieldsOf (diffShape old new)) k \<noteq> None)"
    by (simp add: map_of_eq_None_iff)
  then show "(k \<in> fst ` set (fieldsOf (diffShape old new))) = (diffEntry old k x \<noteq> [])"
    using m diffEntry_cases [of old k x] by auto
qed

lemma isNode_mergeShape [simp]: "isNode (mergeShape t s)"
  by (subst mergeShape.simps) simp

lemma isNode_diffShape [simp]: "isNode (diffShape old new)"
  by (subst diffShape.simps) simp

lemma isNode_fields: "isNode t \<Longrightarrow> t = Node (fieldsOf t)"
  by (cases t) simp_all

lemma agreeS_refl: "wfS x \<Longrightarrow> agreeS x x"
proof (induction "size x" arbitrary: x rule: less_induct)
  case less
  have "if isNode y then isNode (fieldOf x k) \<and> agreeS y (fieldOf x k) else fieldOf x k = y"
    if m: "(k, y) \<in> set (fieldsOf x)" for k y
  proof -
    have f: "fieldOf x k = y" using wfS_fields [OF less.prems] m by (rule field_member)
    have "agreeS y y" using less.hyps [OF size_field [OF m]] wfS_child [OF less.prems m] .
    then show ?thesis using f by simp
  qed
  then show ?case by (subst agreeS.simps) (auto simp: list_all_iff)
qed

text \<open>Reading a key of the new tree from the merge of the difference onto the old tree
  gives what the new tree has there.\<close>

lemma merge_diff_shape:
  "wfS old \<Longrightarrow> wfS new \<Longrightarrow> agreeS new (mergeShape old (diffShape old new))"
proof (induction "size new" arbitrary: old new rule: less_induct)
  case less
  let ?D = "diffShape old new"
  let ?r = "mergeShape old ?D"
  note dn = wfS_fields [OF less.prems(2)] and dold = wfS_fields [OF less.prems(1)]
  have dD: "distinct (map fst (fieldsOf ?D))" using dn by (rule diffShape_distinct)
  have "if isNode x then isNode (fieldOf ?r k) \<and> agreeS x (fieldOf ?r k) else fieldOf ?r k = x"
    if m: "(k, x) \<in> set (fieldsOf new)" for k x
  proof -
    let ?o = "fieldOf old k"
    note fD = field_diffShape [OF dn m, of old]
    note fr = field_mergeShape [OF dold dD, of k]
    have wo: "wfS ?o" using less.prems(1) by (rule wfS_field)
    have wx: "wfS x" using less.prems(2) m by (rule wfS_child)
    have IH: "agreeS x (mergeShape ?o (diffShape ?o x))"
      using less.hyps [OF size_field [OF m] wo wx] .
    show ?thesis
    proof (cases "isNode ?o \<and> isNode x")
      case True
      show ?thesis
      proof (cases "fieldsOf (diffShape ?o x) \<noteq> []")
        case nonempty: True
        have "diffEntry old k x = [(k, diffShape ?o x)]"
          using True nonempty by (simp add: diffEntry_def)
        then have "fieldOf ?D k = diffShape ?o x" using fD(1) by simp
        then have "fieldOf ?r k = mergeShape ?o (diffShape ?o x)" using fr True by simp
        then show ?thesis using IH True by simp
      next
        case empty: False
        have "diffEntry old k x = []" using True empty by (simp add: diffEntry_def)
        then have "fieldOf ?D k = Leaf Undefined" and "k \<notin> fst ` set (fieldsOf ?D)"
          using fD by simp_all
        then have r: "fieldOf ?r k = ?o" using fr by simp
        have o: "?o = Node (fieldsOf ?o)" using True by (simp add: isNode_fields)
        have "mergeShape (Node (fieldsOf ?o)) (diffShape ?o x) = Node (fieldsOf ?o)"
          using wfS_fields [OF wo] empty by (intro mergeShape_empty) simp_all
        then have "mergeShape ?o (diffShape ?o x) = ?o" using o by simp
        then show ?thesis using IH True r by simp
      qed
    next
      case False
      show ?thesis
      proof (cases "?o = x")
        case same: True
        have nx: "\<not> isNode x" using False same by auto
        have "diffEntry old k x = []" using False same by (auto simp: diffEntry_def)
        then have "fieldOf ?D k = Leaf Undefined" and "k \<notin> fst ` set (fieldsOf ?D)"
          using fD by simp_all
        then have "fieldOf ?r k = ?o" using fr by simp
        then show ?thesis using nx same by simp
      next
        case differ: False
        have "diffEntry old k x = [(k, x)]" using False differ by (auto simp: diffEntry_def)
        then have "fieldOf ?D k = x" and "k \<in> fst ` set (fieldsOf ?D)"
          using fD by simp_all
        then have "fieldOf ?r k = x" using fr False by auto
        then show ?thesis using agreeS_refl [OF wx] by simp
      qed
    qed
  qed
  then show ?case by (subst agreeS.simps) (auto simp: list_all_iff)
qed

subsection \<open>Merge with an empty object, and merge of a difference\<close>

lemma wfS_shapeOf: "wfTree n h v \<Longrightarrow> wfS (shapeOf n h v)"
proof (induction n arbitrary: v)
  case 0
  then show ?case by simp
next
  case (Suc n)
  show ?case
  proof (cases "isObject h v")
    case True
    have d: "distinct (map fst (entries h v))" using Suc.prems True by simp
    have "wfS (shapeOf n h x)" if "x \<in> snd ` set (entries h v)" for x
      using Suc.IH [of x] Suc.prems True that by (auto simp: list_all_iff)
    then show ?thesis using True d by (auto simp: list_all_iff comp_def split_beta)
  next
    case False
    then show ?thesis by simp
  qed
qed

text \<open>
  Merging an object without properties onto a tree of plain objects: the call returns, the
  store it returns is the store it was given followed by new cells, every plain object of
  the result is among the new cells, and the result has the shape of the target.
\<close>

lemma merge_with_empty_on_plain_trees:
  assumes wT: "wfTree (Suc n) h T" and oT: "isObject h T"
    and wS: "wfTree (Suc n) h S" and eS: "entries h S = []"
  shows "\<exists>ext. deepMergeConfig (Suc n) T S h = Some (Ref (length h), h @ ext) \<and>
           wfTree (Suc n) (h @ ext) (Ref (length h)) \<and>
           fresh (Suc n) (length h) (h @ ext) (Ref (length h)) \<and>
           shapeOf (Suc n) (h @ ext) (Ref (length h)) = shapeOf (Suc n) h T"
proof -
  from deepMergeConfig_spec [OF wT wS] obtain ext where
    m: "deepMergeConfig (Suc n) T S h = Some (Ref (length h), h @ ext)" and
    b: "built (Suc n) (length h) (h @ ext) (Ref (length h)) (refs (Suc n) h T \<union> refs (Suc n) h S)" and
    s: "shapeOf (Suc n) (h @ ext) (Ref (length h))
         = mergeShape (shapeOf (Suc n) h T) (shapeOf (Suc n) h S)"
    by blast
  have t: "shapeOf (Suc n) h T = Node (fieldsOf (shapeOf (Suc n) h T))"
    using oT by simp
  have d: "distinct (map fst (fieldsOf (shapeOf (Suc n) h T)))"
    using wfS_fields [OF wfS_shapeOf [OF wT]] .
  have f: "fieldsOf (shapeOf (Suc n) h S) = []"
    unfolding fields_shapeOf eS by simp
  have "mergeShape (Node (fieldsOf (shapeOf (Suc n) h T))) (shapeOf (Suc n) h S)
        = Node (fieldsOf (shapeOf (Suc n) h T))"
    using d f by (rule mergeShape_empty)
  then have "mergeShape (shapeOf (Suc n) h T) (shapeOf (Suc n) h S) = shapeOf (Suc n) h T"
    using t by simp
  then show ?thesis
    using m b s unfolding built_def by (intro exI [of _ ext]) (simp del: wfTree.simps fresh.simps shapeOf.simps)
qed

text \<open>
  The difference of two trees of plain objects, merged onto the old one: both calls
  return, and reading a key of the new tree from the result gives what the new tree has
  there. A key of the new tree that holds \<^verbatim>\<open>undefined\<close> and is not a key of the old tree
  is not a key of the result.
\<close>

lemma merge_of_diff_on_plain_trees:
  assumes wO: "wfTree (Suc n) h Old" and wN: "wfTree (Suc n) h New"
  shows "\<exists>d h1 r h2.
           deepDiffConfig (Suc n) Old New h = Some (d, h1) \<and>
           deepMergeConfig (Suc n) Old d h1 = Some (r, h2) \<and>
           agreeS (shapeOf (Suc n) h New) (shapeOf (Suc n) h2 r)"
proof -
  from deepDiffConfig_spec [OF wO wN] obtain e1 where
    d: "deepDiffConfig (Suc n) Old New h = Some (Ref (length h), h @ e1)" and
    wd: "wfTree (Suc n) (h @ e1) (Ref (length h))" and
    sd: "shapeOf (Suc n) (h @ e1) (Ref (length h))
          = diffShape (shapeOf (Suc n) h Old) (shapeOf (Suc n) h New)"
    by blast
  have wO1: "wfTree (Suc n) (h @ e1) Old" using wO by (rule wfTree_ext)
  have sO1: "shapeOf (Suc n) (h @ e1) Old = shapeOf (Suc n) h Old" using wO by (rule shapeOf_ext)
  from deepMergeConfig_spec [OF wO1 wd] obtain e2 where
    m: "deepMergeConfig (Suc n) Old (Ref (length h)) (h @ e1)
          = Some (Ref (length (h @ e1)), (h @ e1) @ e2)" and
    sm: "shapeOf (Suc n) ((h @ e1) @ e2) (Ref (length (h @ e1)))
          = mergeShape (shapeOf (Suc n) (h @ e1) Old) (shapeOf (Suc n) (h @ e1) (Ref (length h)))"
    by blast
  have "agreeS (shapeOf (Suc n) h New)
          (mergeShape (shapeOf (Suc n) h Old) (diffShape (shapeOf (Suc n) h Old) (shapeOf (Suc n) h New)))"
    using wfS_shapeOf [OF wO] wfS_shapeOf [OF wN] by (rule merge_diff_shape)
  then have "agreeS (shapeOf (Suc n) h New) (shapeOf (Suc n) ((h @ e1) @ e2) (Ref (length (h @ e1))))"
    unfolding sm sO1 sd .
  then show ?thesis using d m by blast
qed
subsection \<open>The two configurations of plain objects\<close>

text \<open>
  For the configurations \<^verbatim>\<open>{viewOnly: false, animation: {enabled: true, duration: 200}, orientation: 'white'}\<close>
  and \<^verbatim>\<open>{viewOnly: true, animation: {enabled: true, duration: 500}, orientation: 'white'}\<close>
  the difference is \<^verbatim>\<open>{viewOnly: true, animation: {duration: 500}}\<close>, and merged onto the
  old configuration it gives the new one.
\<close>

lemma plain_difference_is_exact:
  "shapeOfResult diffOfPlain
     = Some (Node [(''viewOnly'', Leaf (Boolean True)),
                   (''animation'', Node [(''duration'', Leaf (Number 500))])])"
  by code_simp

lemma plain_merge_of_difference:
  "shapeOfResult mergeOfPlainDiff
     = Some (Node [(''viewOnly'', Leaf (Boolean True)),
                   (''animation'', Node [(''enabled'', Leaf (Boolean True)),
                                         (''duration'', Leaf (Number 500))]),
                   (''orientation'', Leaf (Str ''white''))]) \<and>
   shapeOfResult mergeOfPlainDiff = Some (shapeOf 3 plainHeap plainNew)"
  by code_simp

lemma plain_trees_well_formed:
  "wfTree 3 plainHeap plainOld \<and> wfTree 3 plainHeap plainNew \<and> isObject plainHeap plainOld"
  by code_simp

text \<open>The two general facts at these configurations.\<close>

lemma merge_of_diff_on_the_plain_configurations:
  "\<exists>d h1 r h2.
     deepDiffConfig 3 plainOld plainNew plainHeap = Some (d, h1) \<and>
     deepMergeConfig 3 plainOld d h1 = Some (r, h2) \<and>
     agreeS (shapeOf 3 plainHeap plainNew) (shapeOf 3 h2 r)"
proof -
  have "wfTree (Suc 2) plainHeap plainOld" and "wfTree (Suc 2) plainHeap plainNew"
    using plain_trees_well_formed by (simp_all add: eval_nat_numeral)
  from merge_of_diff_on_plain_trees [OF this] show ?thesis
    by (simp add: eval_nat_numeral)
qed

lemma merge_with_empty_on_the_plain_configuration:
  "\<exists>ext. deepMergeConfig 3 plainOld (Ref (length plainHeap)) (plainHeap @ [Plain []])
            = Some (Ref (Suc (length plainHeap)), (plainHeap @ [Plain []]) @ ext) \<and>
         fresh 3 (Suc (length plainHeap)) ((plainHeap @ [Plain []]) @ ext) (Ref (Suc (length plainHeap))) \<and>
         shapeOf 3 ((plainHeap @ [Plain []]) @ ext) (Ref (Suc (length plainHeap)))
           = shapeOf 3 plainHeap plainOld"
proof -
  let ?h = "plainHeap @ [Plain []]"
  have w: "wfTree (Suc 2) plainHeap plainOld" and o: "isObject plainHeap plainOld"
    using plain_trees_well_formed by (simp_all add: eval_nat_numeral)
  have wT: "wfTree (Suc 2) ?h plainOld" using w by (rule wfTree_ext)
  have oT: "isObject ?h plainOld" using o wfTree_valid [OF w] by simp
  have wS: "wfTree (Suc 2) ?h (Ref (length plainHeap))"
    unfolding wfTree.simps by (simp add: valid_def cellOf_def)
  have eS: "entries ?h (Ref (length plainHeap)) = []" by simp
  have s: "shapeOf (Suc 2) ?h plainOld = shapeOf (Suc 2) plainHeap plainOld"
    using w by (rule shapeOf_ext)
  from merge_with_empty_on_plain_trees [OF wT oT wS eS] obtain ext where
    "deepMergeConfig (Suc 2) plainOld (Ref (length plainHeap)) ?h = Some (Ref (length ?h), ?h @ ext)"
    "fresh (Suc 2) (length ?h) (?h @ ext) (Ref (length ?h))"
    "shapeOf (Suc 2) (?h @ ext) (Ref (length ?h)) = shapeOf (Suc 2) ?h plainOld"
    by blast
  then show ?thesis
    unfolding s by (intro exI [of _ ext]) (simp add: eval_nat_numeral del: deepMergeConfig.simps fresh.simps shapeOf.simps)
qed
end
